theory Spec2Isabelle
  imports Main "HOL-Library.Word"
begin

unbundle bit_operations_syntax

section \<open>Machine types\<close>

text \<open>
  The library is a set of C++ templates over an element type \<open>T\<close>. The model follows one
  thread of control: an atomic object is a plain field, a load reads it, a store or an
  exchange writes it, and \<open>compare_exchange_weak\<close> compares and swaps without spurious
  failure. Every retry loop of the source is kept as a loop.

  \<open>unsigned\<close> is a 32-bit word and a pointer is a 64-bit byte address. The pool's index type
  \<open>tIndex\<close> is chosen from \<open>sizeof(T)\<close> at compile time, so an index is a natural number
  and every conversion to \<open>tIndex\<close> is written out as a reduction modulo \<open>2 ^ index_bits\<close>.
\<close>

type_synonym unsigned = "32 word"
type_synonym ptr = "64 word"

definition nullptr :: ptr where
  "nullptr = 0"

text \<open>\<open>p + i\<close> on \<open>T*\<close>: the address moves by \<open>sizeof(T)\<close> bytes per element.\<close>

definition ptr_add :: "nat \<Rightarrow> ptr \<Rightarrow> int \<Rightarrow> ptr" where
  "ptr_add sz a i = a + of_int (i * int sz)"

text \<open>
  \<open>p - q\<close> on \<open>T*\<close>. The language defines the difference for two pointers into one array,
  where the byte distance is a multiple of \<open>sizeof(T)\<close>; the compilers rely on that and emit
  an exact division of the 64-bit byte distance: an arithmetic shift right by the number of
  trailing zero bits of \<open>sizeof(T)\<close>, then a multiplication by the inverse modulo \<open>2 ^ 64\<close> of
  the odd part of \<open>sizeof(T)\<close> (for a power of two the shift alone). \<open>ptr_diff\<close> is that
  computation, so that it also gives the value the program works with for a pointer that
  is not a whole number of elements away from the base.

  The inverse is a constant of the compiled code; \<open>inverse_odd\<close> computes it by Newton's
  iteration \<open>x \<mapsto> x * (2 - m * x)\<close>, which doubles the number of correct low bits at every
  step and starts from \<open>m\<close> itself, correct to three bits.
\<close>

fun trailing_zeros :: "nat \<Rightarrow> nat" where
  "trailing_zeros n = (if n = 0 \<or> odd n then 0 else Suc (trailing_zeros (n div 2)))"

declare trailing_zeros.simps [simp del]

definition newton_step :: "ptr \<Rightarrow> ptr \<Rightarrow> ptr" where
  "newton_step m x = x * (2 - m * x)"

definition inverse_odd :: "ptr \<Rightarrow> ptr" where
  "inverse_odd m =
     newton_step m (newton_step m (newton_step m (newton_step m (newton_step m m))))"

definition ptr_diff :: "nat \<Rightarrow> ptr \<Rightarrow> ptr \<Rightarrow> int" where
  "ptr_diff sz a b =
     (let shift = trailing_zeros sz;
          odd_part = sz div 2 ^ shift
      in sint (signed_drop_bit shift (a - b) * inverse_odd (of_nat odd_part)))"

text \<open>\<open>std::atomic::compare_exchange_weak(expected, desired)\<close>: the result is the success flag,
  the new value of the atomic object and the new value of \<open>expected\<close>.\<close>

definition compare_exchange :: "'a \<Rightarrow> 'a \<Rightarrow> 'a \<Rightarrow> bool \<times> 'a \<times> 'a" where
  "compare_exchange obj expected desired =
     (if obj = expected then (True, desired, expected) else (False, obj, obj))"

section \<open>lockfree\_pool.h, lockfree\_pool.inl\<close>

text \<open>\<open>typedef std::conditional_t<sizeof(T) >= sizeof(uint64_t), uint32_t, uint16_t> tIndex\<close>\<close>

definition index_bits :: "nat \<Rightarrow> nat" where
  "index_bits sz = (if 8 \<le> sz then 32 else 16)"

definition tIndex_max :: "nat \<Rightarrow> nat" where
  "tIndex_max sz = 2 ^ index_bits sz - 1"

definition to_tIndex :: "nat \<Rightarrow> int \<Rightarrow> nat" where
  "to_tIndex sz z = nat (z mod 2 ^ index_bits sz)"

record tIndexTag =
  mIdx :: nat
  mTag :: nat

text \<open>The constructor \<open>tIndexTag(tIndex idx, tTag tag)\<close> converts both arguments to \<open>tIndex\<close>.\<close>

definition tIndexTag :: "nat \<Rightarrow> int \<Rightarrow> int \<Rightarrow> tIndexTag" where
  "tIndexTag sz idx tag = \<lparr>mIdx = to_tIndex sz idx, mTag = to_tIndex sz tag\<rparr>"

record tNode =
  mNext :: tIndexTag

definition NULL_IDX :: "nat \<Rightarrow> nat" where
  "NULL_IDX sz = tIndex_max sz"

text \<open>
  The pool object, together with the contents of the slab it allocated. A slot of the slab
  is read through two types: the pool reads it as \<open>tNode\<close>, its user as \<open>T\<close>. A slot is
  therefore a record that extends \<open>tNode\<close> with the fields of \<open>T\<close>, and the slab maps the
  address of a slot to its contents. In the program the two views share their bytes; the
  model keeps them in separate fields, and what a holder can do to the bytes of \<open>mNext\<close> is
  covered where it matters: the pool writes \<open>mNext.mIdx\<close> of a slot when it takes the slot
  back and reads it only while the slot is free, and the reachability relation below lets
  the holder of a slot overwrite the whole slot.

  \<open>sizeof_T\<close> is the compile-time constant \<open>sizeof(T)\<close>. The allocator is left out: the
  address it returns is an argument of the constructor.
\<close>

record 's cLockFreePool =
  sizeof_T :: nat
  mHead :: tIndexTag
  mCapacity :: unsigned
  mStorage :: ptr
  slab :: "ptr \<Rightarrow> 's"

definition IsNull :: "'s cLockFreePool \<Rightarrow> nat \<Rightarrow> bool" where
  "IsNull p index = (unat (mCapacity p) \<le> index)"

definition GetNode :: "'s cLockFreePool \<Rightarrow> nat \<Rightarrow> ptr" where
  "GetNode p index = ptr_add (sizeof_T p) (mStorage p) (int index)"

function AcquireIdx_loop ::
  "('z tNode_scheme) cLockFreePool \<Rightarrow> tIndexTag \<Rightarrow> nat \<times> ('z tNode_scheme) cLockFreePool" where
  "AcquireIdx_loop p head_tmp =
     (if IsNull p (mIdx head_tmp) then (NULL_IDX (sizeof_T p), p)
      else
        let node = GetNode p (mIdx head_tmp);
            next = mNext (slab p node);
            tmp = tIndexTag (sizeof_T p) (int (mIdx next)) (int (mTag head_tmp) + 1);
            (ok, head', head_tmp') = compare_exchange (mHead p) head_tmp tmp
        in if ok then (mIdx head_tmp, p\<lparr>mHead := head'\<rparr>)
           else AcquireIdx_loop p head_tmp')"
  by pat_completeness auto
termination
  apply (relation "measure (\<lambda>(p, head_tmp). if head_tmp = mHead p then 0 else 1)")
   apply (auto simp: compare_exchange_def split: if_splits)
  done

definition AcquireIdx ::
  "('z tNode_scheme) cLockFreePool \<Rightarrow> nat \<times> ('z tNode_scheme) cLockFreePool" where
  "AcquireIdx p = AcquireIdx_loop p (mHead p)"

function ReleaseIdx_loop ::
  "('z tNode_scheme) cLockFreePool \<Rightarrow> nat \<Rightarrow> ptr \<Rightarrow> tIndexTag \<Rightarrow> ('z tNode_scheme) cLockFreePool" where
  "ReleaseIdx_loop p index node head_tmp =
     (let p1 = p\<lparr>slab := (slab p)(node :=
                  (slab p node)\<lparr>mNext := (mNext (slab p node))\<lparr>mIdx := mIdx head_tmp\<rparr>\<rparr>)\<rparr>;
          (ok, head', head_tmp') =
             compare_exchange (mHead p1) head_tmp
               (tIndexTag (sizeof_T p1) (int index) (int (mTag head_tmp)))
      in if ok then p1\<lparr>mHead := head'\<rparr>
         else ReleaseIdx_loop p1 index node head_tmp')"
  by pat_completeness auto
termination
  apply (relation "measure (\<lambda>(p, index, node, head_tmp). if head_tmp = mHead p then 0 else 1)")
   apply (auto simp: compare_exchange_def split: if_splits)
  done

definition ReleaseIdx ::
  "('z tNode_scheme) cLockFreePool \<Rightarrow> nat \<Rightarrow> ('z tNode_scheme) cLockFreePool" where
  "ReleaseIdx p index =
     (if IsNull p index then p
      else ReleaseIdx_loop p index (GetNode p index) (mHead p))"

text \<open>\<open>LF_assert\<close> expands to \<open>((void)(expr))\<close> unless \<open>_DEBUG\<close> is defined; the model is the
  release build, where the bounds check of \<open>ReleasePtr\<close> has no effect. \<open>ReleasePtr_managed\<close>
  is the condition of that check.\<close>

definition ReleasePtr_managed :: "('z tNode_scheme) cLockFreePool \<Rightarrow> ptr \<Rightarrow> bool" where
  "ReleasePtr_managed p ptr =
     (let ptr_to_storage_diff = ptr_diff (sizeof_T p) ptr (mStorage p)
      in 0 \<le> ptr_to_storage_diff \<and> ptr_to_storage_diff < uint (mCapacity p))"

definition ReleasePtr ::
  "('z tNode_scheme) cLockFreePool \<Rightarrow> ptr \<Rightarrow> ('z tNode_scheme) cLockFreePool" where
  "ReleasePtr p ptr =
     (let ptr_to_storage_diff = ptr_diff (sizeof_T p) ptr (mStorage p);
          idx = to_tIndex (sizeof_T p) ptr_to_storage_diff
      in ReleaseIdx p idx)"

text \<open>
  \<open>ReleaseAllPtrs\<close> runs \<open>for (int i = 0; i != mCapacity; ++i)\<close>. The counter is kept as its
  32-bit pattern \<open>i\<close>: the test compares it with \<open>mCapacity\<close> as unsigned, and where the body
  uses the counter as an \<open>int\<close> (the conversion to \<open>tIndex\<close> in \<open>GetNode(i)\<close>, the pointer
  \<open>mStorage + i\<close>) its value is \<open>sint i\<close>. Past \<open>INT_MAX\<close> rounds the increment wraps, as it
  does on the x64 targets of the library (in C++ that overflow is undefined).
\<close>

definition ReleaseAllPtrs_body ::
  "32 word \<Rightarrow> ('z tNode_scheme) cLockFreePool \<Rightarrow> ('z tNode_scheme) cLockFreePool" where
  "ReleaseAllPtrs_body i p =
     (let node = GetNode p (to_tIndex (sizeof_T p) (sint i));
          p1 = p\<lparr>slab := (slab p)(node :=
                  (slab p node)\<lparr>mNext := (mNext (slab p node))\<lparr>mIdx := NULL_IDX (sizeof_T p)\<rparr>\<rparr>)\<rparr>;
          p2 = p1\<lparr>slab := (slab p1)(node :=
                  (slab p1 node)\<lparr>mNext := (mNext (slab p1 node))\<lparr>mTag := 0\<rparr>\<rparr>)\<rparr>
      in ReleasePtr p2 (ptr_add (sizeof_T p2) (mStorage p2) (sint i)))"

text \<open>The loops of \<open>AcquireIdx\<close> and \<open>ReleaseIdx\<close> leave after one round when no other thread
  interferes; a release changes neither the capacity nor the place of the slab, which is
  what the termination of the loop of \<open>ReleaseAllPtrs\<close> rests on.\<close>

lemma AcquireIdx_eq:
  "AcquireIdx p =
     (if IsNull p (mIdx (mHead p)) then (NULL_IDX (sizeof_T p), p)
      else (mIdx (mHead p),
            p\<lparr>mHead := tIndexTag (sizeof_T p)
                 (int (mIdx (mNext (slab p (GetNode p (mIdx (mHead p)))))))
                 (int (mTag (mHead p)) + 1)\<rparr>))"
  by (simp add: AcquireIdx_def compare_exchange_def Let_def)

lemma ReleaseIdx_eq:
  "ReleaseIdx p i =
     (if IsNull p i then p
      else p\<lparr>slab := (slab p)(GetNode p i :=
                 (slab p (GetNode p i))\<lparr>mNext := (mNext (slab p (GetNode p i)))\<lparr>mIdx := mIdx (mHead p)\<rparr>\<rparr>),
             mHead := tIndexTag (sizeof_T p) (int i) (int (mTag (mHead p)))\<rparr>)"
  by (simp add: ReleaseIdx_def compare_exchange_def Let_def)

lemma ReleaseIdx_fields:
  "sizeof_T (ReleaseIdx p i) = sizeof_T p"
  "mCapacity (ReleaseIdx p i) = mCapacity p"
  "mStorage (ReleaseIdx p i) = mStorage p"
  by (simp_all add: ReleaseIdx_eq)

lemma ReleasePtr_fields:
  "sizeof_T (ReleasePtr p a) = sizeof_T p"
  "mCapacity (ReleasePtr p a) = mCapacity p"
  "mStorage (ReleasePtr p a) = mStorage p"
  by (simp_all add: ReleasePtr_def ReleaseIdx_fields)

lemma ReleaseAllPtrs_body_fields:
  "sizeof_T (ReleaseAllPtrs_body i p) = sizeof_T p"
  "mCapacity (ReleaseAllPtrs_body i p) = mCapacity p"
  "mStorage (ReleaseAllPtrs_body i p) = mStorage p"
  by (simp_all add: ReleaseAllPtrs_body_def Let_def ReleasePtr_fields)

function ReleaseAllPtrs_loop ::
  "('z tNode_scheme) cLockFreePool \<Rightarrow> 32 word \<Rightarrow> ('z tNode_scheme) cLockFreePool" where
  "ReleaseAllPtrs_loop p i =
     (if i \<noteq> mCapacity p then ReleaseAllPtrs_loop (ReleaseAllPtrs_body i p) (i + 1)
      else p)"
  by pat_completeness auto
termination
proof (relation "measure (\<lambda>(p, i). unat (mCapacity p - i))")
  show "wf (measure (\<lambda>(p :: ('z tNode_scheme) cLockFreePool, i). unat (mCapacity p - i)))"
    by simp
next
  fix p :: "('z tNode_scheme) cLockFreePool" and i :: "32 word"
  assume "i \<noteq> mCapacity p"
  then have "mCapacity p - i \<noteq> 0" by simp
  then have "unat (mCapacity p - i - 1) < unat (mCapacity p - i)"
    by (simp add: unat_minus_one unat_gt_0)
  moreover have e: "mCapacity p - (i + 1) = mCapacity p - i - 1" by simp
  ultimately have "unat (mCapacity p - (i + 1)) < unat (mCapacity p - i)"
    by (simp only: e)
  then show "((ReleaseAllPtrs_body i p, i + 1), (p, i))
          \<in> measure (\<lambda>(p, i). unat (mCapacity p - i))"
    by (simp add: ReleaseAllPtrs_body_fields)
qed

declare ReleaseAllPtrs_loop.simps [simp del]

definition ReleaseAllPtrs ::
  "('z tNode_scheme) cLockFreePool \<Rightarrow> ('z tNode_scheme) cLockFreePool" where
  "ReleaseAllPtrs p =
     ReleaseAllPtrs_loop (p\<lparr>mHead := tIndexTag (sizeof_T p) (int (NULL_IDX (sizeof_T p))) 0\<rparr>) 0"

text \<open>\<open>AllocateStorage\<close>; \<open>allocated\<close> is the address \<open>mAlloc.allocate(mCapacity)\<close> returns.\<close>

definition max_capacity :: "nat \<Rightarrow> unsigned" where
  "max_capacity sz = of_nat (tIndex_max sz - 1)"

definition AllocateStorage ::
  "('z tNode_scheme) cLockFreePool \<Rightarrow> unsigned \<Rightarrow> ptr \<Rightarrow> ('z tNode_scheme) cLockFreePool" where
  "AllocateStorage p requested_capacity allocated =
     (if mStorage p \<noteq> nullptr then p
      else
        let p1 = p\<lparr>mCapacity := min requested_capacity (max_capacity (sizeof_T p))\<rparr>;
            p2 = p1\<lparr>mStorage := allocated\<rparr>
        in ReleaseAllPtrs p2)"

text \<open>The constructor \<open>cLockFreePool(unsigned n, allocator)\<close> for elements of \<open>sz\<close> bytes;
  \<open>mem\<close> is what the allocated memory holds before the pool initialises it.\<close>

definition cLockFreePool ::
  "nat \<Rightarrow> unsigned \<Rightarrow> ptr \<Rightarrow> (ptr \<Rightarrow> 'z tNode_scheme) \<Rightarrow> ('z tNode_scheme) cLockFreePool" where
  "cLockFreePool sz n allocated mem =
     AllocateStorage
       \<lparr>sizeof_T = sz, mHead = tIndexTag sz (int (NULL_IDX sz)) 0, mCapacity = 0,
        mStorage = nullptr, slab = mem\<rparr> n allocated"

definition Empty :: "('z tNode_scheme) cLockFreePool \<Rightarrow> bool" where
  "Empty p = IsNull p (mIdx (mHead p))"

definition GetCapacity :: "('z tNode_scheme) cLockFreePool \<Rightarrow> unsigned" where
  "GetCapacity p = mCapacity p"

definition AcquirePtr ::
  "('z tNode_scheme) cLockFreePool \<Rightarrow> ptr \<times> ('z tNode_scheme) cLockFreePool" where
  "AcquirePtr p =
     (let (idx, p1) = AcquireIdx p
      in if idx \<noteq> NULL_IDX (sizeof_T p1)
         then (ptr_add (sizeof_T p1) (mStorage p1) (int idx), p1)
         else (nullptr, p1))"

text \<open>\<open>Acquire(args...)\<close> constructs a \<open>T\<close> in the acquired slot by placement new; \<open>construct\<close>
  is the effect of that constructor on the slot.\<close>

definition Acquire ::
  "('z tNode_scheme) cLockFreePool \<Rightarrow> ('z tNode_scheme \<Rightarrow> 'z tNode_scheme)
     \<Rightarrow> ptr \<times> ('z tNode_scheme) cLockFreePool" where
  "Acquire p construct =
     (let (ptr, p1) = AcquirePtr p
      in if ptr \<noteq> nullptr
         then (ptr, p1\<lparr>slab := (slab p1)(ptr := construct (slab p1 ptr))\<rparr>)
         else (ptr, p1))"

text \<open>\<open>Release(const T* ptr)\<close> runs the destructor of a non-trivial \<open>T\<close>, which leaves the
  pool and the slot's node as they are, then calls \<open>ReleasePtr\<close>.\<close>

definition Release ::
  "('z tNode_scheme) cLockFreePool \<Rightarrow> ptr \<Rightarrow> ('z tNode_scheme) cLockFreePool" where
  "Release p ptr = ReleasePtr p ptr"

text \<open>\<open>Full\<close>: the loop runs \<open>mCapacity\<close> times unless it returns early; the first argument
  of the loop is the number of rounds left.\<close>

fun Full_loop :: "nat \<Rightarrow> ('z tNode_scheme) cLockFreePool \<Rightarrow> tIndexTag \<Rightarrow> bool" where
  "Full_loop 0 p cur = True"
| "Full_loop (Suc k) p cur =
     (if IsNull p (mIdx cur) then False
      else Full_loop k p (mNext (slab p (GetNode p (mIdx cur)))))"

definition Full :: "('z tNode_scheme) cLockFreePool \<Rightarrow> bool" where
  "Full p = Full_loop (unat (mCapacity p)) p (mHead p)"

definition Manages :: "('z tNode_scheme) cLockFreePool \<Rightarrow> ptr \<Rightarrow> bool" where
  "Manages p ptr =
     (mStorage p \<le> ptr \<and> ptr < ptr_add (sizeof_T p) (mStorage p) (uint (mCapacity p)))"


section \<open>tagged\_ptr.h\<close>

text \<open>\<open>tTaggedPtr\<close> is a union of a 64-bit \<open>mPackedPtr\<close> and, in its two most significant
  bytes (little endian), a 16-bit \<open>mTag\<close>. \<open>PackTaggedPtr\<close> stores the pointer and then the
  tag, so the tag replaces the upper 16 bits of the pointer.\<close>

type_synonym tTaggedPtr = "64 word"
type_synonym tTag = "16 word"

definition VIRTUAL_ADDRESS_MASK :: "64 word" where
  "VIRTUAL_ADDRESS_MASK = push_bit 48 1 - 1"

definition PackTaggedPtr :: "ptr \<Rightarrow> tTag \<Rightarrow> tTaggedPtr" where
  "PackTaggedPtr ptr tag = (ptr AND mask 48) OR push_bit 48 (ucast tag)"

definition GetPtr :: "tTaggedPtr \<Rightarrow> ptr" where
  "GetPtr tp = tp AND VIRTUAL_ADDRESS_MASK"

definition GetTag :: "tTaggedPtr \<Rightarrow> tTag" where
  "GetTag tp = ucast (drop_bit 48 tp)"

section \<open>lockfree\_stack.h, lockfree\_stack.inl\<close>

record 'a tLockFreeStackNode = tNode +
  mData :: 'a
  mPrev :: tTaggedPtr

record 'a cLockFreeStack =
  mNodePool :: "('a tLockFreeStackNode) cLockFreePool"
  mTop :: tTaggedPtr
  mCount :: unsigned

definition cLockFreeStack :: "('a tLockFreeStackNode) cLockFreePool \<Rightarrow> 'a cLockFreeStack" where
  "cLockFreeStack pool =
     \<lparr>mNodePool = pool, mTop = PackTaggedPtr nullptr 0, mCount = 0\<rparr>"

definition Stack_Empty :: "'a cLockFreeStack \<Rightarrow> bool" where
  "Stack_Empty s = (GetPtr (mTop s) = nullptr)"

text \<open>The \<open>do ... while\<close> loop of \<open>LinkTopNodeAtomically\<close>. The expected value of the
  compare-and-swap is the field \<open>new_node->mPrev\<close> itself, so a failed attempt writes the
  current top into the node.\<close>

function LinkTopNodeAtomically_loop :: "'a cLockFreeStack \<Rightarrow> ptr \<Rightarrow> 'a cLockFreeStack" where
  "LinkTopNodeAtomically_loop s new_node =
     (let pool = mNodePool s;
          new_node_ptr = PackTaggedPtr new_node (GetTag (mPrev (slab pool new_node)));
          (ok, top', prev') = compare_exchange (mTop s) (mPrev (slab pool new_node)) new_node_ptr
      in if ok then s\<lparr>mTop := top'\<rparr>
         else LinkTopNodeAtomically_loop
                (s\<lparr>mNodePool := pool\<lparr>slab := (slab pool)(new_node :=
                      (slab pool new_node)\<lparr>mPrev := prev'\<rparr>)\<rparr>\<rparr>)
                new_node)"
  by pat_completeness auto
termination
  apply (relation "measure (\<lambda>(s, new_node).
            if mPrev (slab (mNodePool s) new_node) = mTop s then 0 else 1)")
   apply (auto simp: compare_exchange_def split: if_splits)
  done

definition LinkTopNodeAtomically :: "'a cLockFreeStack \<Rightarrow> ptr \<Rightarrow> 'a cLockFreeStack" where
  "LinkTopNodeAtomically s new_node =
     (let pool = mNodePool s;
          s1 = s\<lparr>mNodePool := pool\<lparr>slab := (slab pool)(new_node :=
                  (slab pool new_node)\<lparr>mPrev := mTop s\<rparr>)\<rparr>\<rparr>;
          s2 = LinkTopNodeAtomically_loop s1 new_node
      in s2\<lparr>mCount := mCount s2 + 1\<rparr>)"

text \<open>\<open>Push(args...)\<close> for one argument \<open>x\<close>: the node constructor \<open>tLockFreeStackNode(data)\<close>
  sets \<open>mData\<close> and default-constructs \<open>mPrev\<close> (a null tagged pointer).\<close>

definition Stack_Push :: "'a cLockFreeStack \<Rightarrow> 'a \<Rightarrow> bool \<times> 'a cLockFreeStack" where
  "Stack_Push s x =
     (let (new_node, pool) = Acquire (mNodePool s) (\<lambda>slot. slot\<lparr>mData := x, mPrev := 0\<rparr>);
          s1 = s\<lparr>mNodePool := pool\<rparr>
      in if new_node \<noteq> nullptr then (True, LinkTopNodeAtomically s1 new_node)
         else (False, s1))"

text \<open>\<open>Pop(T& result)\<close>: the second argument is the value of the out-parameter at the call,
  the second component of the result its value at the return.\<close>

function Stack_Pop_loop ::
  "'a cLockFreeStack \<Rightarrow> 'a \<Rightarrow> tTaggedPtr \<Rightarrow> bool \<times> 'a \<times> 'a cLockFreeStack" where
  "Stack_Pop_loop s result old_top =
     (if GetPtr old_top = nullptr then (False, result, s)
      else
        let new_top = PackTaggedPtr (GetPtr (mPrev (slab (mNodePool s) (GetPtr old_top))))
                        (GetTag old_top + 1);
            (ok, top', old_top') = compare_exchange (mTop s) old_top new_top
        in if ok then
             let s1 = s\<lparr>mTop := top'\<rparr>;
                 result' = mData (slab (mNodePool s1) (GetPtr old_top'));
                 s2 = s1\<lparr>mNodePool := Release (mNodePool s1) (GetPtr old_top')\<rparr>;
                 s3 = s2\<lparr>mCount := mCount s2 - 1\<rparr>
             in (True, result', s3)
           else Stack_Pop_loop s result old_top')"
  by pat_completeness auto
termination
  apply (relation "measure (\<lambda>(s, result, old_top). if old_top = mTop s then 0 else 1)")
   apply (auto simp: compare_exchange_def split: if_splits)
  done

definition Stack_Pop :: "'a cLockFreeStack \<Rightarrow> 'a \<Rightarrow> bool \<times> 'a \<times> 'a cLockFreeStack" where
  "Stack_Pop s result = Stack_Pop_loop s result (mTop s)"

section \<open>lockfree\_queue.h, lockfree\_queue.inl: the MPMC queue\<close>

text \<open>\<open>mData\<close> is raw storage for a \<open>T\<close>; it holds whatever the slot held until \<open>SetData\<close>
  constructs a value in it.\<close>

record 'a tLockFreeQueueNode = tNode +
  mData :: 'a
  mPrev :: tTaggedPtr

record 'a cLockFreeQueue =
  mNodePool :: "('a tLockFreeQueueNode) cLockFreePool"
  mFront :: tTaggedPtr
  mBack :: tTaggedPtr
  mCount :: unsigned

text \<open>\<open>AcquireNewNode\<close>: the node constructor \<open>tLockFreeQueueNode()\<close> only sets \<open>mPrev\<close> to null.\<close>

definition Queue_AcquireNewNode :: "'a cLockFreeQueue \<Rightarrow> ptr \<times> 'a cLockFreeQueue" where
  "Queue_AcquireNewNode q =
     (let (new_mem, pool) = AcquirePtr (cLockFreeQueue.mNodePool q)
      in if new_mem \<noteq> nullptr
         then (new_mem, q\<lparr>cLockFreeQueue.mNodePool := pool\<lparr>slab := (slab pool)(new_mem :=
                 (slab pool new_mem)\<lparr>tLockFreeQueueNode.mPrev := 0\<rparr>)\<rparr>\<rparr>)
         else (nullptr, q\<lparr>cLockFreeQueue.mNodePool := pool\<rparr>))"

definition cLockFreeQueue :: "('a tLockFreeQueueNode) cLockFreePool \<Rightarrow> 'a cLockFreeQueue" where
  "cLockFreeQueue pool =
     (let (dummy_node, q) =
            Queue_AcquireNewNode
              \<lparr>cLockFreeQueue.mNodePool = pool, mFront = 0, mBack = 0, cLockFreeQueue.mCount = 0\<rparr>;
          q1 = q\<lparr>mFront := PackTaggedPtr dummy_node 0\<rparr>;
          q2 = q1\<lparr>mBack := PackTaggedPtr dummy_node 0\<rparr>
      in q2\<lparr>cLockFreeQueue.mCount := 0\<rparr>)"

definition Queue_Empty :: "'a cLockFreeQueue \<Rightarrow> bool" where
  "Queue_Empty q =
     (GetPtr (tLockFreeQueueNode.mPrev
                (slab (cLockFreeQueue.mNodePool q) (GetPtr (mFront q)))) = nullptr)"

definition Queue_LinkBackNodeAtomically ::
  "'a cLockFreeQueue \<Rightarrow> 'a \<Rightarrow> bool \<times> 'a cLockFreeQueue" where
  "Queue_LinkBackNodeAtomically q x =
     (let (new_node, q1) = Queue_AcquireNewNode q
      in if new_node = nullptr then (False, q1)
         else
           let new_back = PackTaggedPtr new_node 0;
               old_back = mBack q1;
               q2 = q1\<lparr>mBack := new_back\<rparr>;
               pool = cLockFreeQueue.mNodePool q2;
               q3 = q2\<lparr>cLockFreeQueue.mNodePool := pool\<lparr>slab := (slab pool)(GetPtr old_back :=
                       (slab pool (GetPtr old_back))\<lparr>tLockFreeQueueNode.mData := x\<rparr>)\<rparr>\<rparr>;
               pool3 = cLockFreeQueue.mNodePool q3;
               q4 = q3\<lparr>cLockFreeQueue.mNodePool := pool3\<lparr>slab := (slab pool3)(GetPtr old_back :=
                       (slab pool3 (GetPtr old_back))\<lparr>tLockFreeQueueNode.mPrev := new_back\<rparr>)\<rparr>\<rparr>
           in (True, q4\<lparr>cLockFreeQueue.mCount := cLockFreeQueue.mCount q4 + 1\<rparr>))"

definition Queue_Push :: "'a cLockFreeQueue \<Rightarrow> 'a \<Rightarrow> bool \<times> 'a cLockFreeQueue" where
  "Queue_Push q x = Queue_LinkBackNodeAtomically q x"

function Queue_Pop_loop ::
  "'a cLockFreeQueue \<Rightarrow> 'a \<Rightarrow> tTaggedPtr \<Rightarrow> tTaggedPtr \<Rightarrow> bool \<times> 'a \<times> 'a cLockFreeQueue" where
  "Queue_Pop_loop q result old_front old_front_prev =
     (if GetPtr old_front_prev \<noteq> nullptr then
        let new_front = PackTaggedPtr (GetPtr old_front_prev) (GetTag old_front + 1);
            (ok, front', old_front') = compare_exchange (mFront q) old_front new_front
        in if ok then
             let q1 = q\<lparr>mFront := front'\<rparr>;
                 result' = tLockFreeQueueNode.mData
                             (slab (cLockFreeQueue.mNodePool q1) (GetPtr old_front'));
                 q2 = q1\<lparr>cLockFreeQueue.mNodePool :=
                         Release (cLockFreeQueue.mNodePool q1) (GetPtr old_front')\<rparr>;
                 q3 = q2\<lparr>cLockFreeQueue.mCount := cLockFreeQueue.mCount q2 - 1\<rparr>
             in (True, result', q3)
           else Queue_Pop_loop q result old_front'
                  (tLockFreeQueueNode.mPrev
                     (slab (cLockFreeQueue.mNodePool q) (GetPtr old_front')))
      else (False, result, q))"
  by pat_completeness auto
termination
  apply (relation "measure (\<lambda>(q, result, old_front, old_front_prev).
            if old_front = mFront q then 0 else 1)")
   apply (auto simp: compare_exchange_def split: if_splits)
  done

definition Queue_Pop :: "'a cLockFreeQueue \<Rightarrow> 'a \<Rightarrow> bool \<times> 'a \<times> 'a cLockFreeQueue" where
  "Queue_Pop q result =
     (let old_front = mFront q;
          old_front_prev = tLockFreeQueueNode.mPrev
                             (slab (cLockFreeQueue.mNodePool q) (GetPtr old_front))
      in Queue_Pop_loop q result old_front old_front_prev)"

section \<open>lockfree\_queue.h, lockfree\_queue.inl: the MPSC queue\<close>

record 'a tMPSCLockFreeQueueNode = tNode +
  mData :: 'a
  mPrev :: ptr

record 'a cMPSCLockFreeQueue =
  mNodePool :: "('a tMPSCLockFreeQueueNode) cLockFreePool"
  mBack :: ptr
  mFront :: ptr
  mCount :: unsigned

text \<open>\<open>AcquireNewNode(args...)\<close> is \<open>mNodePool.Acquire(args...)\<close>; the node constructor sets
  \<open>mPrev\<close> to null and constructs the data from the arguments, here the value \<open>x\<close>.\<close>

definition MPSC_AcquireNewNode ::
  "'a cMPSCLockFreeQueue \<Rightarrow> 'a \<Rightarrow> ptr \<times> 'a cMPSCLockFreeQueue" where
  "MPSC_AcquireNewNode q x =
     (let (new_node, pool) =
            Acquire (cMPSCLockFreeQueue.mNodePool q)
              (\<lambda>slot. slot\<lparr>tMPSCLockFreeQueueNode.mPrev := nullptr,
                            tMPSCLockFreeQueueNode.mData := x\<rparr>)
      in (new_node, q\<lparr>cMPSCLockFreeQueue.mNodePool := pool\<rparr>))"

text \<open>The constructor acquires the sentinel with no arguments, so its data is a
  value-initialised \<open>T\<close>, the argument \<open>t0\<close>.\<close>

definition cMPSCLockFreeQueue ::
  "('a tMPSCLockFreeQueueNode) cLockFreePool \<Rightarrow> 'a \<Rightarrow> 'a cMPSCLockFreeQueue" where
  "cMPSCLockFreeQueue pool t0 =
     (let (sentinel_node, q) =
            MPSC_AcquireNewNode
              \<lparr>cMPSCLockFreeQueue.mNodePool = pool, cMPSCLockFreeQueue.mBack = nullptr,
               cMPSCLockFreeQueue.mFront = nullptr, cMPSCLockFreeQueue.mCount = 0\<rparr> t0;
          q1 = q\<lparr>cMPSCLockFreeQueue.mFront := sentinel_node\<rparr>;
          q2 = q1\<lparr>cMPSCLockFreeQueue.mBack := sentinel_node\<rparr>
      in q2\<lparr>cMPSCLockFreeQueue.mCount := 0\<rparr>)"

definition MPSC_Empty :: "'a cMPSCLockFreeQueue \<Rightarrow> bool" where
  "MPSC_Empty q =
     (tMPSCLockFreeQueueNode.mPrev
        (slab (cMPSCLockFreeQueue.mNodePool q) (cMPSCLockFreeQueue.mFront q)) = nullptr)"

definition MPSC_LinkBackNodeAtomically ::
  "'a cMPSCLockFreeQueue \<Rightarrow> 'a \<Rightarrow> bool \<times> 'a cMPSCLockFreeQueue" where
  "MPSC_LinkBackNodeAtomically q x =
     (let (new_node, q1) = MPSC_AcquireNewNode q x
      in if new_node \<noteq> nullptr then
           let old_back = cMPSCLockFreeQueue.mBack q1;
               q2 = q1\<lparr>cMPSCLockFreeQueue.mBack := new_node\<rparr>;
               pool = cMPSCLockFreeQueue.mNodePool q2;
               q3 = q2\<lparr>cMPSCLockFreeQueue.mNodePool := pool\<lparr>slab := (slab pool)(old_back :=
                       (slab pool old_back)\<lparr>tMPSCLockFreeQueueNode.mPrev := new_node\<rparr>)\<rparr>\<rparr>
           in (True, q3\<lparr>cMPSCLockFreeQueue.mCount := cMPSCLockFreeQueue.mCount q3 + 1\<rparr>)
         else (False, q1))"

definition MPSC_Push :: "'a cMPSCLockFreeQueue \<Rightarrow> 'a \<Rightarrow> bool \<times> 'a cMPSCLockFreeQueue" where
  "MPSC_Push q x = MPSC_LinkBackNodeAtomically q x"

definition MPSC_Pop ::
  "'a cMPSCLockFreeQueue \<Rightarrow> 'a \<Rightarrow> bool \<times> 'a \<times> 'a cMPSCLockFreeQueue" where
  "MPSC_Pop q result =
     (let old_front = cMPSCLockFreeQueue.mFront q;
          node_to_pop = tMPSCLockFreeQueueNode.mPrev
                          (slab (cMPSCLockFreeQueue.mNodePool q) old_front)
      in if node_to_pop \<noteq> nullptr then
           let q1 = q\<lparr>cMPSCLockFreeQueue.mFront := node_to_pop\<rparr>;
               result' = tMPSCLockFreeQueueNode.mData
                           (slab (cMPSCLockFreeQueue.mNodePool q1) node_to_pop);
               q2 = q1\<lparr>cMPSCLockFreeQueue.mNodePool :=
                       Release (cMPSCLockFreeQueue.mNodePool q1) old_front\<rparr>;
               q3 = q2\<lparr>cMPSCLockFreeQueue.mCount := cMPSCLockFreeQueue.mCount q2 - 1\<rparr>
           in (True, result', q3)
         else (False, result, q))"

section \<open>Specification vocabulary\<close>

text \<open>The slab is a real object at canonical user-space addresses, which \<open>tagged_ptr.h\<close>
  relies on: it does not start at the null address and ends below \<open>2 ^ 48\<close>; \<open>sizeof(T)\<close> is
  at least 4 (the \<open>static_assert\<close> of the pool).\<close>

definition slab_ok :: "'s cLockFreePool \<Rightarrow> bool" where
  "slab_ok p =
     (4 \<le> sizeof_T p \<and> mStorage p \<noteq> nullptr \<and>
      unat (mStorage p) + unat (mCapacity p) * sizeof_T p \<le> 2 ^ 48)"

text \<open>The free-list as the pool walks it: from an index, follow \<open>mNext.mIdx\<close> until an index
  is null (\<open>IsNull\<close>). The result is the list of slots visited and the index the walk stopped
  at, or \<open>None\<close> when the walk is still inside the slab after the given number of hops.
  \<open>free_list\<close> starts at \<open>mHead\<close> and allows as many hops as the pool has slots, so \<open>None\<close>
  means that the chain runs into a cycle.\<close>

fun free_list_from ::
  "nat \<Rightarrow> ('z tNode_scheme) cLockFreePool \<Rightarrow> nat \<Rightarrow> (nat list \<times> nat) option" where
  "free_list_from 0 p i = (if IsNull p i then Some ([], i) else None)"
| "free_list_from (Suc k) p i =
     (if IsNull p i then Some ([], i)
      else case free_list_from k p (mIdx (mNext (slab p (GetNode p i)))) of
             None \<Rightarrow> None
           | Some (fl, stop) \<Rightarrow> Some (i # fl, stop))"

definition free_list :: "('z tNode_scheme) cLockFreePool \<Rightarrow> (nat list \<times> nat) option" where
  "free_list p = free_list_from (unat (mCapacity p)) p (mIdx (mHead p))"

text \<open>The chain of free slots \<open>fl\<close> that starts at index \<open>i\<close> and ends with \<open>NULL_IDX\<close>.\<close>

primrec linked :: "('z tNode_scheme) cLockFreePool \<Rightarrow> nat \<Rightarrow> nat list \<Rightarrow> bool" where
  "linked p i [] = (i = NULL_IDX (sizeof_T p))"
| "linked p i (j # fl) =
     (i = j \<and> j < unat (mCapacity p) \<and> linked p (mIdx (mNext (slab p (GetNode p j)))) fl)"

text \<open>
  The states a pool reaches through its public interface, with the set of pointers its
  callers hold: the pool is constructed; \<open>AcquirePtr\<close> hands out a pointer or returns null;
  \<open>ReleasePtr\<close> takes back a pointer that is held (the documented precondition); and the
  holder of a pointer writes to its slot. Such a write may change every byte of the slot,
  hence also the bytes the pool reads as \<open>mNext\<close> once the slot is free again.
\<close>

inductive reachable ::
  "nat \<Rightarrow> unsigned \<Rightarrow> ptr \<Rightarrow> (ptr \<Rightarrow> 'z tNode_scheme)
     \<Rightarrow> ('z tNode_scheme) cLockFreePool \<Rightarrow> ptr set \<Rightarrow> bool"
  for sz :: nat and n :: unsigned and allocated :: ptr and mem :: "ptr \<Rightarrow> 'z tNode_scheme" where
  constructed: "reachable sz n allocated mem (cLockFreePool sz n allocated mem) {}"
| acquired:
    "reachable sz n allocated mem p held \<Longrightarrow> AcquirePtr p = (ptr, p') \<Longrightarrow> ptr \<noteq> nullptr
       \<Longrightarrow> reachable sz n allocated mem p' (insert ptr held)"
| exhausted:
    "reachable sz n allocated mem p held \<Longrightarrow> AcquirePtr p = (nullptr, p')
       \<Longrightarrow> reachable sz n allocated mem p' held"
| released:
    "reachable sz n allocated mem p held \<Longrightarrow> ptr \<in> held
       \<Longrightarrow> reachable sz n allocated mem (ReleasePtr p ptr) (held - {ptr})"
| written:
    "reachable sz n allocated mem p held \<Longrightarrow> ptr \<in> held
       \<Longrightarrow> reachable sz n allocated mem (p\<lparr>slab := (slab p)(ptr := v)\<rparr>) held"

text \<open>Memory whose every slot reads as zero bytes, for the concrete instances below.\<close>

definition zero_node :: tNode where
  "zero_node = \<lparr>mNext = \<lparr>mIdx = 0, mTag = 0\<rparr>\<rparr>"

definition zero_mem :: "ptr \<Rightarrow> tNode" where
  "zero_mem a = zero_node"

text \<open>The invariant of the pool for the set \<open>held\<close> of pointers handed out: the slab is sound,
  the capacity is below \<open>NULL_IDX\<close>, every held pointer is the address of a slot, and the
  chain from \<open>mHead\<close> lists each slot that is not held exactly once.\<close>

definition pool_inv :: "('z tNode_scheme) cLockFreePool \<Rightarrow> ptr set \<Rightarrow> bool" where
  "pool_inv p held =
     (slab_ok p \<and> unat (mCapacity p) < NULL_IDX (sizeof_T p) \<and>
      held \<subseteq> GetNode p ` {i. i < unat (mCapacity p)} \<and>
      (\<exists>fl. linked p (mIdx (mHead p)) fl \<and> distinct fl \<and>
            set fl = {i. i < unat (mCapacity p) \<and> GetNode p i \<notin> held}))"

text \<open>A pool of 16-bit indices whose head tag is the largest tag.\<close>

definition tag_example :: "tNode cLockFreePool" where
  "tag_example = \<lparr>sizeof_T = 4, mHead = \<lparr>mIdx = 1, mTag = 65535\<rparr>, mCapacity = 3,
      mStorage = 4096, slab = zero_mem\<rparr>"

text \<open>
  The values a stack holds, read off the heap: \<open>stack_chain\<close> follows \<open>mPrev\<close> from the top
  node down to the null pointer. \<open>stack_rep s ns xs\<close> says that the nodes of the stack \<open>s\<close>
  are \<open>ns\<close>, top first, that they are exactly the slots handed out by its pool, and that
  their data are \<open>xs\<close>; \<open>stack_holds s xs\<close> hides the addresses.
\<close>

primrec stack_chain :: "('a tLockFreeStackNode) cLockFreePool \<Rightarrow> ptr \<Rightarrow> ptr list \<Rightarrow> bool" where
  "stack_chain pool a [] = (a = nullptr)"
| "stack_chain pool a (n # ns) =
     (a = n \<and> stack_chain pool (GetPtr (tLockFreeStackNode.mPrev (slab pool n))) ns)"

definition stack_rep :: "'a cLockFreeStack \<Rightarrow> ptr list \<Rightarrow> 'a list \<Rightarrow> bool" where
  "stack_rep s ns xs =
     (pool_inv (cLockFreeStack.mNodePool s) (set ns) \<and> distinct ns \<and>
      stack_chain (cLockFreeStack.mNodePool s) (GetPtr (mTop s)) ns \<and>
      map (\<lambda>n. tLockFreeStackNode.mData (slab (cLockFreeStack.mNodePool s) n)) ns = xs)"

definition stack_holds :: "'a cLockFreeStack \<Rightarrow> 'a list \<Rightarrow> bool" where
  "stack_holds s xs = (\<exists>ns. stack_rep s ns xs)"

text \<open>
  The same for the MPMC queue: \<open>mPrev\<close> leads from the front node to the sentinel at the
  back, whose \<open>mPrev\<close> is null and whose data is not part of the contents. The values
  \<open>xs\<close> are listed oldest first.
\<close>

primrec queue_chain :: "('a tLockFreeQueueNode) cLockFreePool \<Rightarrow> ptr \<Rightarrow> ptr list \<Rightarrow> bool" where
  "queue_chain pool a [] = (a = nullptr)"
| "queue_chain pool a (n # ns) =
     (a = n \<and> queue_chain pool (GetPtr (tLockFreeQueueNode.mPrev (slab pool n))) ns)"

definition queue_rep :: "'a cLockFreeQueue \<Rightarrow> ptr list \<Rightarrow> 'a list \<Rightarrow> bool" where
  "queue_rep q ns xs =
     (pool_inv (cLockFreeQueue.mNodePool q) (set ns) \<and> distinct ns \<and> ns \<noteq> [] \<and>
      queue_chain (cLockFreeQueue.mNodePool q) (GetPtr (cLockFreeQueue.mFront q)) ns \<and>
      GetPtr (cLockFreeQueue.mBack q) = last ns \<and>
      map (\<lambda>n. tLockFreeQueueNode.mData (slab (cLockFreeQueue.mNodePool q) n)) (butlast ns) = xs)"

definition queue_holds :: "'a cLockFreeQueue \<Rightarrow> 'a list \<Rightarrow> bool" where
  "queue_holds q xs = (\<exists>ns. queue_rep q ns xs)"

text \<open>
  Concrete containers of \<open>int\<close>: their nodes are 16 bytes, the slab starts at address
  65536 and reads as zero bytes before the pool initialises it.
\<close>

definition zero_stack_mem :: "ptr \<Rightarrow> int tLockFreeStackNode" where
  "zero_stack_mem a = \<lparr>mNext = \<lparr>mIdx = 0, mTag = 0\<rparr>,
      tLockFreeStackNode.mData = 0, tLockFreeStackNode.mPrev = 0\<rparr>"

definition zero_queue_mem :: "ptr \<Rightarrow> int tLockFreeQueueNode" where
  "zero_queue_mem a = \<lparr>mNext = \<lparr>mIdx = 0, mTag = 0\<rparr>,
      tLockFreeQueueNode.mData = 0, tLockFreeQueueNode.mPrev = 0\<rparr>"

definition zero_mpsc_mem :: "ptr \<Rightarrow> int tMPSCLockFreeQueueNode" where
  "zero_mpsc_mem a = \<lparr>mNext = \<lparr>mIdx = 0, mTag = 0\<rparr>,
      tMPSCLockFreeQueueNode.mData = 0, tMPSCLockFreeQueueNode.mPrev = 0\<rparr>"

definition stack_example :: "int cLockFreeStack" where
  "stack_example = cLockFreeStack (cLockFreePool 16 3 65536 zero_stack_mem)"

definition queue_example :: "int cLockFreeQueue" where
  "queue_example = cLockFreeQueue (cLockFreePool 16 4 65536 zero_queue_mem)"

definition mpsc_example :: "int cMPSCLockFreeQueue" where
  "mpsc_example = cMPSCLockFreeQueue (cLockFreePool 16 4 65536 zero_mpsc_mem) 0"

section \<open>Lemmas on the pool\<close>

lemma trailing_zeros_split:
  "0 < n \<Longrightarrow> n = 2 ^ trailing_zeros n * (n div 2 ^ trailing_zeros n) \<and> odd (n div 2 ^ trailing_zeros n)"
proof (induction n rule: trailing_zeros.induct)
  case (1 n)
  show ?case
  proof (cases "odd n")
    case True
    then show ?thesis by (simp add: trailing_zeros.simps [of n])
  next
    case False
    then have e: "even n" by simp
    have n0: "n \<noteq> 0" using 1(2) by simp
    have h: "0 < n div 2" using e n0 by (auto elim!: evenE)
    have t: "trailing_zeros n = Suc (trailing_zeros (n div 2))"
      using e n0 by (simp add: trailing_zeros.simps [of n])
    have ih: "n div 2 = 2 ^ trailing_zeros (n div 2) * (n div 2 div 2 ^ trailing_zeros (n div 2)) \<and>
        odd (n div 2 div 2 ^ trailing_zeros (n div 2))"
      using 1(1) n0 e h by simp
    have d: "n div 2 ^ trailing_zeros n = n div 2 div 2 ^ trailing_zeros (n div 2)"
      by (simp add: t flip: div_mult2_eq)
    have "n = 2 * (n div 2)" using e by simp
    also have "\<dots> = 2 * (2 ^ trailing_zeros (n div 2) * (n div 2 div 2 ^ trailing_zeros (n div 2)))"
      using ih by simp
    also have "\<dots> = 2 ^ trailing_zeros n * (n div 2 ^ trailing_zeros n)"
      unfolding d by (simp add: t)
    finally have a: "n = 2 ^ trailing_zeros n * (n div 2 ^ trailing_zeros n)" .
    have b: "odd (n div 2 ^ trailing_zeros n)"
      unfolding d using ih by (rule conjunct2)
    from a b show ?thesis by (rule conjI)
  qed
qed

lemma newton_step_error: "1 - m * newton_step m x = (1 - m * x) ^ 2"
  by (simp add: newton_step_def algebra_simps power2_eq_square)

lemma inverse_odd_error: "1 - m * inverse_odd m = (1 - m * m) ^ 32"
proof -
  have "1 - m * inverse_odd m = (((((1 - m * m) ^ 2) ^ 2) ^ 2) ^ 2) ^ 2"
    unfolding inverse_odd_def newton_step_error ..
  also have "\<dots> = (1 - m * m) ^ 32"
    by (simp flip: power_mult)
  finally show ?thesis .
qed

lemma inverse_odd_correct:
  assumes "odd n"
  shows "of_nat n * inverse_odd (of_nat n) = 1"
proof -
  obtain k where k: "n = 2 * k + 1" using assms by (elim oddE)
  define w :: ptr where "w = of_nat k"
  have m: "(of_nat n :: ptr) = 2 * w + 1" by (simp add: k w_def)
  have "1 - (of_nat n :: ptr) * of_nat n = 4 * (- (w * w + w))"
    unfolding m by (simp add: algebra_simps)
  then have "(1 - (of_nat n :: ptr) * of_nat n) ^ 32 = 4 ^ 32 * (- (w * w + w)) ^ 32"
    by (simp only: power_mult_distrib)
  also have "\<dots> = 0"
  proof -
    have "(4 :: ptr) ^ 32 = (2 ^ 2) ^ 32" by simp
    also have "\<dots> = 2 ^ 64" by (simp only: flip: power_mult) simp
    also have "\<dots> = 0" by (simp only: exp_eq_zero_iff) simp
    finally show ?thesis by (simp only: mult_zero_left)
  qed
  finally have "1 - of_nat n * inverse_odd (of_nat n :: ptr) = 0"
    by (simp only: inverse_odd_error)
  then show ?thesis by simp
qed

lemma inverse_odd_3: "inverse_odd 3 = 0xAAAAAAAAAAAAAAAB"
  by (simp add: inverse_odd_def newton_step_def)

lemma sint_of_int_small:
  assumes "\<bar>x\<bar> < 2 ^ 63"
  shows "sint (of_int x :: 64 word) = x"
proof -
  have "- (2 ^ 63) \<le> x" "x < 2 ^ 63" using assms by linarith+
  then show ?thesis
    by (simp add: sint_sbintrunc' signed_take_bit_int_eq_self)
qed

lemma ptr_diff_ptr_add_int:
  assumes "0 < sz" "\<bar>z\<bar> * int sz < 2 ^ 63"
  shows "ptr_diff sz (ptr_add sz b z) b = z"
proof -
  define k where "k = trailing_zeros sz"
  define m where "m = sz div 2 ^ k"
  have s: "sz = 2 ^ k * m" and od: "odd m"
    using trailing_zeros_split [OF assms(1)] by (simp_all add: k_def m_def)
  define y where "y = z * int m"
  define x where "x = y * 2 ^ k"
  have x: "x = z * int sz" by (simp add: x_def y_def s)
  have "\<bar>x\<bar> < 2 ^ 63" using assms(2) by (simp add: x abs_mult)
  then have sx: "sint (of_int x :: ptr) = x" by (rule sint_of_int_small)
  have "sint (signed_drop_bit k (of_int x :: ptr)) = drop_bit k x"
    by (simp add: sint_signed_drop_bit_eq sx)
  also have "\<dots> = y" by (simp add: x_def drop_bit_eq_div)
  finally have "of_int (sint (signed_drop_bit k (of_int x :: ptr))) = (of_int y :: ptr)" by simp
  then have d: "signed_drop_bit k (of_int x :: ptr) = of_int y" by simp
  have "of_int y * inverse_odd (of_nat m) = (of_int z :: ptr) * (of_nat m * inverse_odd (of_nat m))"
    by (simp add: y_def)
  also have "\<dots> = of_int z" by (simp only: inverse_odd_correct [OF od] mult_1_right)
  finally have q: "signed_drop_bit k (of_int x :: ptr) * inverse_odd (of_nat m) = of_int z"
    by (simp only: d)
  have "1 \<le> int sz" using assms(1) by simp
  then have "\<bar>z\<bar> * 1 \<le> \<bar>z\<bar> * int sz" by (intro mult_left_mono) simp_all
  then have "\<bar>z\<bar> < 2 ^ 63" using assms(2) by simp
  then have sz': "sint (of_int z :: ptr) = z" by (rule sint_of_int_small)
  have "ptr_add sz b z - b = of_int x" by (simp add: ptr_add_def x)
  then show ?thesis
    unfolding ptr_diff_def Let_def k_def [symmetric] m_def [symmetric]
    by (simp only: q sz')
qed

lemma ptr_diff_ptr_add:
  assumes "0 < sz" "i * sz < 2 ^ 63"
  shows "ptr_diff sz (ptr_add sz b (int i)) b = int i"
proof -
  have "int (i * sz) < int (2 ^ 63)" using assms(2) by (rule iffD2 [OF of_nat_less_iff])
  then have "\<bar>int i\<bar> * int sz < 2 ^ 63" by simp
  with assms(1) show ?thesis by (rule ptr_diff_ptr_add_int)
qed

text \<open>The difference for pointers that are not a whole number of elements away from the
  base: one byte below a 4-byte slab, one element past the end of a slab of three, an
  address 20 bytes into a 12-byte slab, and an address 8 bytes short of a multiple of 16
  below a 16-byte slab.\<close>

lemma ptr_diff_examples:
  "ptr_diff 4 4095 4096 = - 1"
  "ptr_diff 4 4108 4096 = 3"
  "ptr_diff 12 4116 4096 mod 2 ^ 32 = 1431655767"
  "ptr_diff 16 1030792151080 1099511627776 mod 2 ^ 32 = 2"
  by (simp_all add: ptr_diff_def trailing_zeros.simps inverse_odd_def newton_step_def)

lemma ptr_add_of_nat: "ptr_add sz b (int i) = b + of_nat (i * sz)"
  by (simp add: ptr_add_def)

lemma to_tIndex_small:
  "i < 2 ^ index_bits sz \<Longrightarrow> to_tIndex sz (int i) = i"
  by (simp add: to_tIndex_def nat_mod_distrib flip: of_nat_power of_nat_mod)

lemma ptr_add_inj:
  assumes "0 < sz" "i * sz < 2 ^ 64" "j * sz < 2 ^ 64"
  shows "(ptr_add sz b (int i) = ptr_add sz b (int j)) = (i = j)"
proof
  assume eq: "ptr_add sz b (int i) = ptr_add sz b (int j)"
  define m where "m = i * sz"
  define k where "k = j * sz"
  have "(of_nat m :: 64 word) = of_nat k"
    using eq unfolding ptr_add_of_nat m_def k_def by simp
  then have "take_bit 64 m = take_bit 64 k"
    by (simp add: word_of_nat_eq_iff)
  moreover have "m < 2 ^ 64" "k < 2 ^ 64"
    using assms(2,3) by (simp_all add: m_def k_def)
  ultimately have "m = k"
    by (simp add: take_bit_nat_eq_self)
  then show "i = j" using assms(1) by (simp add: m_def k_def)
qed simp

lemma ptr_add_nonnull:
  assumes "b \<noteq> 0" "unat b + i * sz < 2 ^ 64"
  shows "ptr_add sz b (int i) \<noteq> nullptr"
proof -
  define m where "m = i * sz"
  have m: "unat b + m < 2 ^ 64" using assms(2) by (simp add: m_def)
  then have "m < 2 ^ 64" by simp
  then have "unat (of_nat m :: 64 word) = m"
    by (simp add: unat_of_nat)
  then have "unat (b + of_nat m) = unat b + m"
    using m by (simp add: unat_word_ariths)
  moreover have "0 < unat b" using assms(1) by (simp add: unat_gt_0)
  ultimately have "unat (b + of_nat m) \<noteq> 0" by simp
  then have "b + of_nat m \<noteq> 0"
    by (metis unat_0)
  then show ?thesis unfolding ptr_add_of_nat nullptr_def m_def .
qed


lemma abs_sint_le_uint: "\<bar>sint (w :: 32 word)\<bar> \<le> uint w"
proof -
  have u: "0 \<le> uint w" "uint w < 2 ^ 32" using uint_bounded [of w] by simp_all
  then have t: "take_bit 32 (uint w) = uint w" by (simp add: take_bit_int_eq_self)
  have "sint w = signed_take_bit 31 (uint w)" by (simp add: sint_uint)
  also have "\<dots> = take_bit (Suc 31) (uint w) - 2 ^ Suc 31 * of_bool (bit (uint w) 31)"
    by (rule signed_take_bit_eq_take_bit_minus)
  finally have "sint w = take_bit (Suc 31) (uint w) - 2 ^ Suc 31 * of_bool (bit (uint w) 31)" .
  then have s: "sint w = uint w - 2 ^ 32 * of_bool (bit (uint w) 31)"
    using t by simp
  have g: "- (2 ^ 31) \<le> sint w" using sint_ge [of w] by simp
  show ?thesis
  proof (cases "bit (uint w) 31")
    case True
    then have "sint w = uint w - 2 ^ 32" using s by simp
    then show ?thesis using g u by (simp add: abs_if)
  next
    case False
    then have "sint w = uint w" using s by simp
    then show ?thesis using u by simp
  qed
qed

lemma to_tIndex_sint:
  assumes "k < 2 ^ index_bits sz"
  shows "to_tIndex sz (sint (of_nat k :: 32 word)) = k"
proof -
  have b: "index_bits sz \<le> 32" by (simp add: index_bits_def)
  then have k32: "k < 2 ^ 32"
    using assms by (auto simp: index_bits_def split: if_splits)
  have "take_bit (index_bits sz) (sint (of_nat k :: 32 word))
          = take_bit (index_bits sz) (uint (of_nat k :: 32 word))"
    unfolding sint_uint using b by (simp add: take_bit_signed_take_bit)
  also have "uint (of_nat k :: 32 word) = int k"
    using k32 by (simp add: uint_nat unat_of_nat)
  also have "take_bit (index_bits sz) (int k) = int k"
    using assms by (simp add: take_bit_int_eq_self)
  finally show ?thesis
    by (simp add: to_tIndex_def take_bit_eq_mod)
qed

lemma slab_ok_offset:
  assumes "slab_ok p" "i < unat (mCapacity p)"
  shows "0 < sizeof_T p" "i * sizeof_T p < 2 ^ 63" "i * sizeof_T p < 2 ^ 64"
    "unat (mStorage p) + i * sizeof_T p < 2 ^ 64" "mStorage p \<noteq> 0"
proof -
  have le: "i * sizeof_T p \<le> unat (mCapacity p) * sizeof_T p"
    using assms(2) by (simp add: mult_le_mono1)
  have b: "unat (mStorage p) + unat (mCapacity p) * sizeof_T p \<le> 2 ^ 48"
    using assms(1) by (simp add: slab_ok_def)
  have c: "(2::nat) ^ 48 < 2 ^ 63" "(2::nat) ^ 48 < 2 ^ 64" by simp_all
  show "0 < sizeof_T p" using assms(1) by (simp add: slab_ok_def)
  show "i * sizeof_T p < 2 ^ 63" using le b c(1) by linarith
  show "i * sizeof_T p < 2 ^ 64" using le b c(2) by linarith
  show "unat (mStorage p) + i * sizeof_T p < 2 ^ 64" using le b c(2) by linarith
  show "mStorage p \<noteq> 0" using assms(1) by (simp add: slab_ok_def nullptr_def)
qed

lemma GetNode_inj:
  assumes "slab_ok p" "i < unat (mCapacity p)" "j < unat (mCapacity p)"
  shows "(GetNode p i = GetNode p j) = (i = j)"
  unfolding GetNode_def
  by (rule ptr_add_inj [OF slab_ok_offset(1) [OF assms(1,2)]
        slab_ok_offset(3) [OF assms(1,2)] slab_ok_offset(3) [OF assms(1,3)]])

lemma GetNode_nonnull:
  assumes "slab_ok p" "i < unat (mCapacity p)"
  shows "GetNode p i \<noteq> nullptr"
  unfolding GetNode_def
  by (rule ptr_add_nonnull [OF slab_ok_offset(5) [OF assms] slab_ok_offset(4) [OF assms]])

lemma ReleasePtr_GetNode:
  assumes "slab_ok p" "i < unat (mCapacity p)" "unat (mCapacity p) \<le> tIndex_max (sizeof_T p)"
  shows "ReleasePtr p (GetNode p i) = ReleaseIdx p i"
proof -
  have "ptr_diff (sizeof_T p) (GetNode p i) (mStorage p) = int i"
    unfolding GetNode_def
    by (rule ptr_diff_ptr_add [OF slab_ok_offset(1) [OF assms(1,2)] slab_ok_offset(2) [OF assms(1,2)]])
  moreover have "i < 2 ^ index_bits (sizeof_T p)"
    using assms(2,3) by (simp add: tIndex_max_def)
  ultimately show ?thesis
    by (simp add: ReleasePtr_def to_tIndex_small)
qed

lemma GetNode_cong:
  "sizeof_T p' = sizeof_T p \<Longrightarrow> mStorage p' = mStorage p \<Longrightarrow> GetNode p' i = GetNode p i"
  by (simp add: GetNode_def)

lemma IsNull_cong:
  "mCapacity p' = mCapacity p \<Longrightarrow> IsNull p' i = IsNull p i"
  by (simp add: IsNull_def)

lemma AcquireIdx_fields:
  "sizeof_T (snd (AcquireIdx p)) = sizeof_T p"
  "mCapacity (snd (AcquireIdx p)) = mCapacity p"
  "mStorage (snd (AcquireIdx p)) = mStorage p"
  "slab (snd (AcquireIdx p)) = slab p"
  by (simp_all add: AcquireIdx_eq)

lemma AcquirePtr_fields:
  "sizeof_T (snd (AcquirePtr p)) = sizeof_T p"
  "mCapacity (snd (AcquirePtr p)) = mCapacity p"
  "mStorage (snd (AcquirePtr p)) = mStorage p"
  "slab (snd (AcquirePtr p)) = slab p"
  by (simp_all add: AcquirePtr_def AcquireIdx_eq split: prod.splits)

lemma slab_ok_cong:
  "sizeof_T p' = sizeof_T p \<Longrightarrow> mStorage p' = mStorage p \<Longrightarrow> mCapacity p' = mCapacity p
     \<Longrightarrow> slab_ok p' = slab_ok p"
  by (simp add: slab_ok_def)

lemma linked_cong:
  assumes "sizeof_T p' = sizeof_T p" "mStorage p' = mStorage p" "mCapacity p' = mCapacity p"
    and "\<And>j. j \<in> set fl \<Longrightarrow> mNext (slab p' (GetNode p j)) = mNext (slab p (GetNode p j))"
  shows "linked p' i fl = linked p i fl"
  using assms(4)
proof (induction fl arbitrary: i)
  case Nil
  then show ?case by (simp add: assms(1))
next
  case (Cons j fl)
  have "GetNode p' j = GetNode p j" using assms(1,2) by (rule GetNode_cong)
  moreover have "mNext (slab p' (GetNode p j)) = mNext (slab p (GetNode p j))"
    using Cons.prems by simp
  moreover have "\<And>k. linked p' k fl = linked p k fl"
    using Cons.IH Cons.prems by simp
  ultimately show ?case by (simp add: assms(3))
qed

lemma linked_bound: "linked p i fl \<Longrightarrow> j \<in> set fl \<Longrightarrow> j < unat (mCapacity p)"
  by (induction fl arbitrary: i) auto

lemma linked_free_list_from:
  assumes "unat (mCapacity p) \<le> NULL_IDX (sizeof_T p)"
  shows "linked p i fl \<Longrightarrow> length fl \<le> k
           \<Longrightarrow> free_list_from k p i = Some (fl, NULL_IDX (sizeof_T p))"
proof (induction fl arbitrary: i k)
  case Nil
  then show ?case using assms by (cases k) (simp_all add: IsNull_def)
next
  case (Cons j fl)
  then obtain k' where k: "k = Suc k'" by (cases k) auto
  from Cons.prems have "i = j" "j < unat (mCapacity p)"
    "linked p (mIdx (mNext (slab p (GetNode p j)))) fl" by simp_all
  moreover have "length fl \<le> k'" using Cons.prems k by simp
  ultimately show ?case
    using Cons.IH [of "mIdx (mNext (slab p (GetNode p j)))" k'] k
    by (simp add: IsNull_def)
qed

lemma distinct_bounded_length:
  assumes "distinct fl" "\<And>j. j \<in> set fl \<Longrightarrow> j < n"
  shows "length fl \<le> (n::nat)"
proof -
  have "set fl \<subseteq> {..<n}" using assms(2) by auto
  then have "card (set fl) \<le> card {..<n}" by (intro card_mono) simp_all
  then show ?thesis using assms(1) by (simp add: distinct_card)
qed


lemma linked_head_upd [simp]: "linked (p\<lparr>mHead := h\<rparr>) i fl = linked p i fl"
  by (rule linked_cong) simp_all

lemma linked_slab_upd:
  assumes "slab_ok p" "linked p h fl" "i < unat (mCapacity p)" "i \<notin> set fl"
  shows "linked (p\<lparr>slab := (slab p)(GetNode p i := v)\<rparr>) h fl"
proof -
  have "linked (p\<lparr>slab := (slab p)(GetNode p i := v)\<rparr>) h fl = linked p h fl"
  proof (rule linked_cong)
    fix j assume j: "j \<in> set fl"
    then have "j < unat (mCapacity p)" using assms(2) by (rule linked_bound [rotated])
    moreover have "j \<noteq> i" using j assms(4) by auto
    ultimately have "GetNode p j \<noteq> GetNode p i"
      using assms(1,3) by (simp add: GetNode_inj)
    then show "mNext (slab (p\<lparr>slab := (slab p)(GetNode p i := v)\<rparr>) (GetNode p j))
                 = mNext (slab p (GetNode p j))" by simp
  qed simp_all
  then show ?thesis using assms(2) by simp
qed

lemma NULL_IDX_lt: "NULL_IDX sz < 2 ^ index_bits sz"
  by (simp add: NULL_IDX_def tIndex_max_def)

lemma linked_head_le:
  "linked p h fl \<Longrightarrow> unat (mCapacity p) \<le> NULL_IDX (sizeof_T p) \<Longrightarrow> h \<le> NULL_IDX (sizeof_T p)"
  by (cases fl) auto

lemma GetNode_upd [simp]:
  "GetNode (p\<lparr>slab := m\<rparr>) i = GetNode p i"
  "GetNode (p\<lparr>mHead := h\<rparr>) i = GetNode p i"
  by (simp_all add: GetNode_def)

lemma ReleaseIdx_linked:
  assumes "slab_ok p" "unat (mCapacity p) \<le> NULL_IDX (sizeof_T p)"
    "linked p (mIdx (mHead p)) fl" "i < unat (mCapacity p)" "i \<notin> set fl"
  shows "linked (ReleaseIdx p i) (mIdx (mHead (ReleaseIdx p i))) (i # fl)"
proof -
  let ?v = "(slab p (GetNode p i))\<lparr>mNext := (mNext (slab p (GetNode p i)))\<lparr>mIdx := mIdx (mHead p)\<rparr>\<rparr>"
  let ?q = "p\<lparr>slab := (slab p)(GetNode p i := ?v)\<rparr>"
  let ?h = "tIndexTag (sizeof_T p) (int i) (int (mTag (mHead p)))"
  have r: "ReleaseIdx p i = ?q\<lparr>mHead := ?h\<rparr>"
    using assms(4) by (simp add: ReleaseIdx_eq IsNull_def)
  have "i < 2 ^ index_bits (sizeof_T p)"
    using assms(2,4) NULL_IDX_lt [of "sizeof_T p"] by linarith
  then have h: "mIdx ?h = i" by (simp add: tIndexTag_def to_tIndex_small)
  have "linked ?q (mIdx (mHead p)) fl"
    using assms(1,3,4,5) by (rule linked_slab_upd)
  then have "linked ?q i (i # fl)"
    using assms(4) by simp
  then show ?thesis by (simp add: r h)
qed



lemma AcquirePtr_empty:
  assumes "linked p (mIdx (mHead p)) []" "unat (mCapacity p) \<le> NULL_IDX (sizeof_T p)"
  shows "AcquirePtr p = (nullptr, p)"
  using assms by (simp add: AcquirePtr_def AcquireIdx_eq IsNull_def)

lemma AcquirePtr_nonempty:
  assumes "linked p (mIdx (mHead p)) (i # fl)" "unat (mCapacity p) < NULL_IDX (sizeof_T p)"
  shows "AcquirePtr p =
           (GetNode p i,
            p\<lparr>mHead := tIndexTag (sizeof_T p) (int (mIdx (mNext (slab p (GetNode p i)))))
                          (int (mTag (mHead p)) + 1)\<rparr>)"
  using assms by (simp add: AcquirePtr_def AcquireIdx_eq IsNull_def GetNode_def)

lemma pool_inv_acquire:
  assumes "pool_inv p held" "AcquirePtr p = (a, p')"
  shows "pool_inv p' (if a = nullptr then held else insert a held)"
proof -
  from assms(1) obtain fl where ok: "slab_ok p"
    and cap: "unat (mCapacity p) < NULL_IDX (sizeof_T p)"
    and held: "held \<subseteq> GetNode p ` {i. i < unat (mCapacity p)}"
    and fl: "linked p (mIdx (mHead p)) fl" "distinct fl"
      "set fl = {i. i < unat (mCapacity p) \<and> GetNode p i \<notin> held}"
    unfolding pool_inv_def by blast
  show ?thesis
  proof (cases fl)
    case Nil
    then have "AcquirePtr p = (nullptr, p)"
      using fl(1) cap by (simp add: AcquirePtr_empty)
    then show ?thesis using assms by simp
  next
    case (Cons i fl')
    let ?nx = "mIdx (mNext (slab p (GetNode p i)))"
    let ?h = "tIndexTag (sizeof_T p) (int ?nx) (int (mTag (mHead p)) + 1)"
    have "AcquirePtr p = (GetNode p i, p\<lparr>mHead := ?h\<rparr>)"
      using fl(1) cap unfolding Cons by (rule AcquirePtr_nonempty)
    then have a: "a = GetNode p i" and p': "p' = p\<lparr>mHead := ?h\<rparr>"
      using assms(2) by simp_all
    have i: "i < unat (mCapacity p)" and l': "linked p ?nx fl'"
      using fl(1) unfolding Cons by simp_all
    have "a \<noteq> nullptr" using ok i unfolding a by (rule GetNode_nonnull)
    have "?nx \<le> NULL_IDX (sizeof_T p)"
      using cap by (intro linked_head_le [OF l']) simp
    then have "?nx < 2 ^ index_bits (sizeof_T p)"
      using NULL_IDX_lt [of "sizeof_T p"] by linarith
    then have h: "mIdx ?h = ?nx" by (simp add: tIndexTag_def to_tIndex_small)
    have 1: "slab_ok p'" using ok by (simp add: p' slab_ok_def)
    have 2: "unat (mCapacity p') < NULL_IDX (sizeof_T p')" using cap by (simp add: p')
    have 3: "insert a held \<subseteq> GetNode p' ` {i. i < unat (mCapacity p')}"
      using held i by (auto simp: p' a)
    have 4: "linked p' (mIdx (mHead p')) fl'" using l' by (simp add: p' h)
    have 5: "distinct fl'" using fl(2) unfolding Cons by simp
    have 6: "set fl' = {j. j < unat (mCapacity p') \<and> GetNode p' j \<notin> insert a held}"
    proof -
      have "set fl' = set fl - {i}" using fl(2) unfolding Cons by auto
      also have "\<dots> = {j. j < unat (mCapacity p) \<and> GetNode p j \<notin> held} - {i}"
        by (simp add: fl(3))
      also have "\<dots> = {j. j < unat (mCapacity p) \<and> GetNode p j \<notin> insert a held}"
        using ok i by (auto simp: a GetNode_inj)
      finally show ?thesis by (simp add: p')
    qed
    have "pool_inv p' (insert a held)"
      unfolding pool_inv_def using 1 2 3 4 5 6 by blast
    then show ?thesis using \<open>a \<noteq> nullptr\<close> by simp
  qed
qed


lemma pool_inv_release:
  assumes "pool_inv p held" "a \<in> held"
  shows "pool_inv (ReleasePtr p a) (held - {a})"
proof -
  from assms(1) obtain fl where ok: "slab_ok p"
    and cap: "unat (mCapacity p) < NULL_IDX (sizeof_T p)"
    and held: "held \<subseteq> GetNode p ` {i. i < unat (mCapacity p)}"
    and fl: "linked p (mIdx (mHead p)) fl" "distinct fl"
      "set fl = {i. i < unat (mCapacity p) \<and> GetNode p i \<notin> held}"
    unfolding pool_inv_def by blast
  from held assms(2) obtain i where i: "i < unat (mCapacity p)" and a: "a = GetNode p i"
    by auto
  have nfl: "i \<notin> set fl" using assms(2) by (simp add: fl(3) a)
  have cap': "unat (mCapacity p) \<le> tIndex_max (sizeof_T p)"
    using cap by (simp add: NULL_IDX_def)
  have r: "ReleasePtr p a = ReleaseIdx p i"
    unfolding a using ok i cap' by (rule ReleasePtr_GetNode)
  let ?r = "ReleaseIdx p i"
  have g: "\<And>j. GetNode ?r j = GetNode p j"
    by (simp add: GetNode_def ReleaseIdx_fields)
  have 1: "slab_ok ?r" using ok by (simp add: slab_ok_def ReleaseIdx_fields)
  have 2: "unat (mCapacity ?r) < NULL_IDX (sizeof_T ?r)" using cap by (simp add: ReleaseIdx_fields)
  have 3: "held - {a} \<subseteq> GetNode ?r ` {i. i < unat (mCapacity ?r)}"
    using held by (auto simp: g ReleaseIdx_fields)
  have 4: "linked ?r (mIdx (mHead ?r)) (i # fl)"
    using ok _ fl(1) i nfl by (rule ReleaseIdx_linked) (use cap in simp)
  have 5: "distinct (i # fl)" using fl(2) nfl by simp
  have 6: "set (i # fl) = {j. j < unat (mCapacity ?r) \<and> GetNode ?r j \<notin> held - {a}}"
    using ok i by (auto simp: g ReleaseIdx_fields fl(3) a GetNode_inj)
  show ?thesis
    unfolding pool_inv_def r using 1 2 3 4 5 6 by blast
qed


lemma pool_inv_written:
  assumes "pool_inv p held" "a \<in> held"
  shows "pool_inv (p\<lparr>slab := (slab p)(a := v)\<rparr>) held"
proof -
  from assms(1) obtain fl where ok: "slab_ok p"
    and cap: "unat (mCapacity p) < NULL_IDX (sizeof_T p)"
    and held: "held \<subseteq> GetNode p ` {i. i < unat (mCapacity p)}"
    and fl: "linked p (mIdx (mHead p)) fl" "distinct fl"
      "set fl = {i. i < unat (mCapacity p) \<and> GetNode p i \<notin> held}"
    unfolding pool_inv_def by blast
  from held assms(2) obtain i where i: "i < unat (mCapacity p)" and a: "a = GetNode p i"
    by auto
  have nfl: "i \<notin> set fl" using assms(2) by (simp add: fl(3) a)
  let ?q = "p\<lparr>slab := (slab p)(a := v)\<rparr>"
  have 1: "slab_ok ?q" using ok by (simp add: slab_ok_def)
  have 4: "linked ?q (mIdx (mHead ?q)) fl"
    using linked_slab_upd [OF ok fl(1) i nfl, of v] by (simp add: a)
  show ?thesis
    unfolding pool_inv_def using 1 cap held 4 fl(2,3) by auto
qed

lemma tIndex_max_cases: "tIndex_max sz = 4294967295 \<or> tIndex_max sz = 65535"
  by (simp add: tIndex_max_def index_bits_def)

lemma unat_max_capacity: "unat (max_capacity sz) = tIndex_max sz - 1"
  using tIndex_max_cases [of sz] by (auto simp: max_capacity_def)

lemma cLockFreePool_eq:
  "cLockFreePool sz n b mem =
     ReleaseAllPtrs \<lparr>sizeof_T = sz, mHead = tIndexTag sz (int (NULL_IDX sz)) 0,
        mCapacity = min n (max_capacity sz), mStorage = b, slab = mem\<rparr>"
  by (simp add: cLockFreePool_def AllocateStorage_def Let_def)

lemma ReleasePtr_counter:
  assumes "slab_ok p" "k < unat (mCapacity p)" "unat (mCapacity p) \<le> tIndex_max (sizeof_T p)"
  shows "to_tIndex (sizeof_T p) (sint (of_nat k :: 32 word)) = k"
    "ReleasePtr p (ptr_add (sizeof_T p) (mStorage p) (sint (of_nat k :: 32 word))) = ReleaseIdx p k"
proof -
  let ?w = "of_nat k :: 32 word"
  have kb: "k < 2 ^ index_bits (sizeof_T p)"
    using assms(2,3) by (simp add: tIndex_max_def)
  show t: "to_tIndex (sizeof_T p) (sint ?w) = k"
    using kb by (rule to_tIndex_sint)
  have "unat (mCapacity p) < 2 ^ 32" using unsigned_less [of "mCapacity p"] by simp
  then have "k < 2 ^ 32" using assms(2) by simp
  then have "uint ?w = int k" by (simp add: uint_nat unat_of_nat)
  then have "\<bar>sint ?w\<bar> \<le> int k" using abs_sint_le_uint [of ?w] by simp
  then have "\<bar>sint ?w\<bar> * int (sizeof_T p) \<le> int k * int (sizeof_T p)"
    by (rule mult_right_mono) simp
  also have "\<dots> = int (k * sizeof_T p)" by simp
  also have "\<dots> < 2 ^ 63"
    using slab_ok_offset(2) [OF assms(1,2)] by (metis of_nat_less_iff of_nat_numeral of_nat_power)
  finally have "ptr_diff (sizeof_T p) (ptr_add (sizeof_T p) (mStorage p) (sint ?w)) (mStorage p)
                  = sint ?w"
    by (intro ptr_diff_ptr_add_int slab_ok_offset(1) [OF assms(1,2)])
  then show "ReleasePtr p (ptr_add (sizeof_T p) (mStorage p) (sint ?w)) = ReleaseIdx p k"
    by (simp add: ReleasePtr_def t)
qed

lemma ReleaseAllPtrs_body_step:
  assumes "slab_ok p" "unat (mCapacity p) < NULL_IDX (sizeof_T p)" "k < unat (mCapacity p)"
    "linked p (mIdx (mHead p)) fl" "k \<notin> set fl"
  shows "linked (ReleaseAllPtrs_body (of_nat k) p)
           (mIdx (mHead (ReleaseAllPtrs_body (of_nat k) p))) (k # fl)"
proof -
  have c: "unat (mCapacity p) \<le> tIndex_max (sizeof_T p)"
    using assms(2) by (simp add: NULL_IDX_def)
  let ?n = "GetNode p k"
  let ?v = "(slab p ?n)\<lparr>mNext := (mNext (slab p ?n))\<lparr>mIdx := NULL_IDX (sizeof_T p), mTag := 0\<rparr>\<rparr>"
  let ?q = "p\<lparr>slab := (slab p)(?n := ?v)\<rparr>"
  have ok: "slab_ok ?q" using assms(1) by (simp add: slab_ok_def)
  have "ReleaseAllPtrs_body (of_nat k) p
          = ReleasePtr ?q (ptr_add (sizeof_T ?q) (mStorage ?q) (sint (of_nat k :: 32 word)))"
    by (simp add: ReleaseAllPtrs_body_def Let_def ReleasePtr_counter(1) [OF assms(1,3) c])
  also have "\<dots> = ReleaseIdx ?q k"
    using ok by (rule ReleasePtr_counter(2)) (use assms(3) c in simp_all)
  finally have body: "ReleaseAllPtrs_body (of_nat k) p = ReleaseIdx ?q k" .
  have l: "linked ?q (mIdx (mHead ?q)) fl"
    using linked_slab_upd [OF assms(1,4,3,5), of ?v] by simp
  have "linked (ReleaseIdx ?q k) (mIdx (mHead (ReleaseIdx ?q k))) (k # fl)"
    using ok _ l _ assms(5) by (rule ReleaseIdx_linked) (use assms(2,3) in simp_all)
  then show ?thesis unfolding body .
qed

lemma ReleaseAllPtrs_loop_fields:
  "sizeof_T (ReleaseAllPtrs_loop p i) = sizeof_T p \<and>
   mCapacity (ReleaseAllPtrs_loop p i) = mCapacity p \<and>
   mStorage (ReleaseAllPtrs_loop p i) = mStorage p"
proof (induction p i rule: ReleaseAllPtrs_loop.induct)
  case (1 p i)
  show ?case
  proof (cases "i = mCapacity p")
    case True
    then show ?thesis by (subst (1 2 3) ReleaseAllPtrs_loop.simps) simp
  next
    case False
    then show ?thesis
      using "1.IH" by (subst (1 2 3) ReleaseAllPtrs_loop.simps) (simp add: ReleaseAllPtrs_body_fields)
  qed
qed

lemma ReleaseAllPtrs_loop_linked:
  assumes "slab_ok p" "unat (mCapacity p) < NULL_IDX (sizeof_T p)" "k \<le> unat (mCapacity p)"
    "linked p (mIdx (mHead p)) (rev [0..<k])"
  shows "linked (ReleaseAllPtrs_loop p (of_nat k)) (mIdx (mHead (ReleaseAllPtrs_loop p (of_nat k))))
           (rev [0 ..< unat (mCapacity p)])"
  using assms
proof (induction "unat (mCapacity p) - k" arbitrary: p k)
  case 0
  then have "k = unat (mCapacity p)" by simp
  then have "(of_nat k :: 32 word) = mCapacity p" by simp
  then have "ReleaseAllPtrs_loop p (of_nat k) = p"
    by (subst ReleaseAllPtrs_loop.simps) simp
  then show ?case using "0.prems"(4) \<open>k = unat (mCapacity p)\<close> by simp
next
  case (Suc d)
  then have k: "k < unat (mCapacity p)" by simp
  have "unat (mCapacity p) < 2 ^ 32" using unsigned_less [of "mCapacity p"] by simp
  then have "unat (of_nat k :: 32 word) = k" using k by (simp add: unat_of_nat)
  then have ne: "(of_nat k :: 32 word) \<noteq> mCapacity p" using k by auto
  let ?q = "ReleaseAllPtrs_body (of_nat k) p"
  have f: "sizeof_T ?q = sizeof_T p" "mCapacity ?q = mCapacity p" "mStorage ?q = mStorage p"
    by (simp_all add: ReleaseAllPtrs_body_fields)
  have step: "ReleaseAllPtrs_loop p (of_nat k) = ReleaseAllPtrs_loop ?q (of_nat (Suc k))"
    using ne by (subst ReleaseAllPtrs_loop.simps) (simp add: add.commute)
  have "linked ?q (mIdx (mHead ?q)) (k # rev [0..<k])"
    using Suc.prems(1,2) k Suc.prems(4) by (rule ReleaseAllPtrs_body_step) simp
  then have l: "linked ?q (mIdx (mHead ?q)) (rev [0..<Suc k])" by simp
  have "linked (ReleaseAllPtrs_loop ?q (of_nat (Suc k)))
          (mIdx (mHead (ReleaseAllPtrs_loop ?q (of_nat (Suc k))))) (rev [0 ..< unat (mCapacity ?q)])"
  proof (rule Suc.hyps(1))
    show "d = unat (mCapacity ?q) - Suc k" using Suc.hyps(2) by (simp add: f)
    show "slab_ok ?q" using Suc.prems(1) by (simp add: slab_ok_def f)
    show "unat (mCapacity ?q) < NULL_IDX (sizeof_T ?q)" using Suc.prems(2) by (simp add: f)
    show "Suc k \<le> unat (mCapacity ?q)" using k by (simp add: f)
    show "linked ?q (mIdx (mHead ?q)) (rev [0..<Suc k])" by (rule l)
  qed
  then show ?case unfolding step by (simp only: f)
qed

lemma NULL_head: "mIdx (tIndexTag sz (int (NULL_IDX sz)) t) = NULL_IDX sz"
  by (simp add: tIndexTag_def to_tIndex_small NULL_IDX_lt)

lemma cLockFreePool_fields:
  "sizeof_T (cLockFreePool sz n b mem) = sz"
  "mCapacity (cLockFreePool sz n b mem) = min n (max_capacity sz)"
  "mStorage (cLockFreePool sz n b mem) = b"
  by (simp_all add: cLockFreePool_eq ReleaseAllPtrs_def ReleaseAllPtrs_loop_fields)

lemma unat_capacity_lt_NULL:
  "unat (mCapacity (cLockFreePool sz n b mem)) < NULL_IDX sz"
proof -
  have "min n (max_capacity sz) \<le> max_capacity sz" by simp
  then have "unat (min n (max_capacity sz)) \<le> unat (max_capacity sz)"
    by (simp only: word_le_nat_alt)
  then show ?thesis
    using tIndex_max_cases [of sz]
    by (auto simp: cLockFreePool_fields unat_max_capacity NULL_IDX_def)
qed

lemma cLockFreePool_linked:
  assumes "slab_ok (cLockFreePool sz n b mem)"
  shows "linked (cLockFreePool sz n b mem) (mIdx (mHead (cLockFreePool sz n b mem)))
           (rev [0 ..< unat (mCapacity (cLockFreePool sz n b mem))])"
proof -
  let ?p0 = "\<lparr>sizeof_T = sz, mHead = tIndexTag sz (int (NULL_IDX sz)) 0,
        mCapacity = min n (max_capacity sz), mStorage = b, slab = mem\<rparr>"
  let ?p1 = "?p0\<lparr>mHead := tIndexTag (sizeof_T ?p0) (int (NULL_IDX (sizeof_T ?p0))) 0\<rparr>"
  have c: "cLockFreePool sz n b mem = ReleaseAllPtrs_loop ?p1 (of_nat 0)"
    by (simp add: cLockFreePool_eq ReleaseAllPtrs_def)
  have ok: "slab_ok ?p1"
    using assms by (simp add: slab_ok_def cLockFreePool_fields)
  have cap: "unat (mCapacity ?p1) < NULL_IDX (sizeof_T ?p1)"
    using unat_capacity_lt_NULL [of sz n b mem] by (simp add: cLockFreePool_fields)
  have l: "linked ?p1 (mIdx (mHead ?p1)) (rev [0..<0])"
    by (simp add: NULL_head)
  have "linked (ReleaseAllPtrs_loop ?p1 (of_nat 0))
          (mIdx (mHead (ReleaseAllPtrs_loop ?p1 (of_nat 0))))
          (rev [0 ..< unat (mCapacity ?p1)])"
    using ok cap _ l by (rule ReleaseAllPtrs_loop_linked) simp
  moreover have "mCapacity (cLockFreePool sz n b mem) = mCapacity ?p1"
    by (simp add: cLockFreePool_fields)
  ultimately show ?thesis by (simp only: c [symmetric])
qed

lemma pool_inv_constructed:
  assumes "slab_ok (cLockFreePool sz n b mem)"
  shows "pool_inv (cLockFreePool sz n b mem) {}"
proof -
  let ?P = "cLockFreePool sz n b mem"
  have "linked ?P (mIdx (mHead ?P)) (rev [0 ..< unat (mCapacity ?P)])"
    using assms by (rule cLockFreePool_linked)
  moreover have "distinct (rev [0 ..< unat (mCapacity ?P)])" by simp
  moreover have "set (rev [0 ..< unat (mCapacity ?P)])
                   = {i. i < unat (mCapacity ?P) \<and> GetNode ?P i \<notin> {}}" by auto
  moreover have "unat (mCapacity ?P) < NULL_IDX (sizeof_T ?P)"
    using unat_capacity_lt_NULL [of sz n b mem] by (simp add: cLockFreePool_fields)
  ultimately show ?thesis
    unfolding pool_inv_def using assms by blast
qed

lemma reachable_pool_inv:
  assumes "slab_ok (cLockFreePool sz n b mem)" "reachable sz n b mem p held"
  shows "pool_inv p held"
  using assms(2)
proof (induction rule: reachable.induct)
  case constructed
  show ?case using assms(1) by (rule pool_inv_constructed)
next
  case (acquired p held ptr p')
  then show ?case using pool_inv_acquire [of p held ptr p'] by simp
next
  case (exhausted p held p')
  then show ?case using pool_inv_acquire [of p held nullptr p'] by simp
next
  case (released p held ptr)
  then show ?case by (simp add: pool_inv_release)
next
  case (written p held ptr v)
  then show ?case by (simp add: pool_inv_written)
qed

lemma pool_inv_free_list:
  assumes "pool_inv p held"
  shows "\<exists>fl. free_list p = Some (fl, NULL_IDX (sizeof_T p)) \<and> distinct fl \<and>
              set fl = {i. i < unat (mCapacity p) \<and> GetNode p i \<notin> held}"
proof -
  from assms obtain fl where cap: "unat (mCapacity p) < NULL_IDX (sizeof_T p)"
    and fl: "linked p (mIdx (mHead p)) fl" "distinct fl"
      "set fl = {i. i < unat (mCapacity p) \<and> GetNode p i \<notin> held}"
    unfolding pool_inv_def by blast
  have "length fl \<le> unat (mCapacity p)"
    using fl(2) by (rule distinct_bounded_length) (simp add: fl(3))
  then have "free_list p = Some (fl, NULL_IDX (sizeof_T p))"
    unfolding free_list_def using cap fl(1) by (intro linked_free_list_from) simp_all
  then show ?thesis using fl(2,3) by blast
qed


lemma cLockFreePool_free_list:
  assumes "slab_ok (cLockFreePool sz n b mem)"
  shows "free_list (cLockFreePool sz n b mem)
           = Some (rev [0 ..< unat (mCapacity (cLockFreePool sz n b mem))], NULL_IDX sz)"
proof -
  let ?P = "cLockFreePool sz n b mem"
  have "free_list_from (unat (mCapacity ?P)) ?P (mIdx (mHead ?P))
          = Some (rev [0 ..< unat (mCapacity ?P)], NULL_IDX (sizeof_T ?P))"
  proof (rule linked_free_list_from)
    show "unat (mCapacity ?P) \<le> NULL_IDX (sizeof_T ?P)"
      using unat_capacity_lt_NULL [of sz n b mem] by (simp add: cLockFreePool_fields)
    show "linked ?P (mIdx (mHead ?P)) (rev [0 ..< unat (mCapacity ?P)])"
      using assms by (rule cLockFreePool_linked)
  qed simp
  then show ?thesis by (simp add: free_list_def cLockFreePool_fields)
qed

lemma cLockFreePool_first_AcquireIdx:
  assumes "slab_ok (cLockFreePool sz n b mem)"
  shows "fst (AcquireIdx (cLockFreePool sz n b mem))
           = (if mCapacity (cLockFreePool sz n b mem) = 0 then NULL_IDX sz
              else unat (mCapacity (cLockFreePool sz n b mem)) - 1)"
proof -
  let ?P = "cLockFreePool sz n b mem"
  have l: "linked ?P (mIdx (mHead ?P)) (rev [0 ..< unat (mCapacity ?P)])"
    using assms by (rule cLockFreePool_linked)
  show ?thesis
  proof (cases "unat (mCapacity ?P)")
    case 0
    then have "mIdx (mHead ?P) = NULL_IDX sz" using l by (simp add: cLockFreePool_fields)
    moreover have "mCapacity ?P = 0" using 0 by (simp add: unat_eq_0)
    ultimately show ?thesis
      by (simp add: AcquireIdx_eq IsNull_def cLockFreePool_fields)
  next
    case (Suc k)
    then have "mIdx (mHead ?P) = k" using l by simp
    moreover have "mCapacity ?P \<noteq> 0" using Suc by (auto simp: unat_eq_0)
    ultimately show ?thesis
      using Suc by (simp add: AcquireIdx_eq IsNull_def)
  qed
qed

lemma slab_ok_example: "slab_ok (cLockFreePool 4 3 4096 zero_mem)"
  by (simp add: slab_ok_def cLockFreePool_fields max_capacity_def tIndex_max_def index_bits_def
      nullptr_def)

lemma capacity_example: "mCapacity (cLockFreePool 4 3 4096 zero_mem) = 3"
  by (simp add: cLockFreePool_fields max_capacity_def tIndex_max_def index_bits_def)

lemma ReleasePtr_managed_index:
  assumes "ReleasePtr_managed p ptr" "unat (mCapacity p) \<le> tIndex_max (sizeof_T p)"
  shows "\<not> IsNull p (to_tIndex (sizeof_T p) (ptr_diff (sizeof_T p) ptr (mStorage p)))"
proof -
  define z where "z = ptr_diff (sizeof_T p) ptr (mStorage p)"
  have z: "0 \<le> z" "z < uint (mCapacity p)"
    using assms(1) by (simp_all add: ReleasePtr_managed_def Let_def z_def)
  have "int (nat z) < int (unat (mCapacity p))" using z by simp
  then have n: "nat z < unat (mCapacity p)" by (rule iffD1 [OF of_nat_less_iff])
  have "tIndex_max (sizeof_T p) < 2 ^ index_bits (sizeof_T p)"
    by (simp add: tIndex_max_def)
  with n assms(2) have "nat z < 2 ^ index_bits (sizeof_T p)"
    by (rule less_le_trans [THEN less_trans])
  then have "to_tIndex (sizeof_T p) (int (nat z)) = nat z" by (rule to_tIndex_small)
  then have "to_tIndex (sizeof_T p) z = nat z" using z(1) by simp
  then show ?thesis using n by (simp add: IsNull_def z_def)
qed

section \<open>Claims on the pool\<close>

subsection \<open>C3: the free-list invariant\<close>

text \<open>
  Claim C3. In every state a pool reaches from its construction by acquiring, releasing
  held pointers and writing to held slots, the walk from \<open>mHead\<close> along \<open>mNext.mIdx\<close>
  ends at \<open>NULL_IDX\<close> within as many hops as the pool has slots, visits no slot twice (so
  the chain has no cycle), and visits exactly the slots that no caller holds: a slot is
  reachable from the head if and only if it is free.
\<close>

theorem free_list_invariant:
  assumes "slab_ok (cLockFreePool sz n allocated mem)"
    and "reachable sz n allocated mem p held"
  shows "\<exists>fl. free_list p = Some (fl, NULL_IDX (sizeof_T p)) \<and> distinct fl \<and>
              set fl = {i. i < unat (mCapacity p) \<and> GetNode p i \<notin> held}"
  using assms by (intro pool_inv_free_list reachable_pool_inv)

text \<open>
  Witness for C3: a pool of three 4-byte elements at address 4096, after one acquire
  (which hands out address 4104) and the release of that pointer.
\<close>

theorem free_list_invariant_witness:
  "slab_ok (cLockFreePool 4 3 4096 zero_mem) \<and>
   reachable 4 3 4096 zero_mem (ReleasePtr (snd (AcquirePtr (cLockFreePool 4 3 4096 zero_mem))) 4104) {} \<and>
   (\<exists>fl. free_list (ReleasePtr (snd (AcquirePtr (cLockFreePool 4 3 4096 zero_mem))) 4104)
            = Some (fl, 65535) \<and> distinct fl \<and> set fl = {0, 1, 2})"
proof -
  let ?P = "cLockFreePool 4 3 4096 zero_mem"
  have u: "rev [0 ..< unat (mCapacity ?P)] = [2, 1, 0]"
    by (simp add: capacity_example upt_rec)
  have l: "linked ?P (mIdx (mHead ?P)) [2, 1, 0]"
    using cLockFreePool_linked [OF slab_ok_example] by (simp only: u)
  have c: "unat (mCapacity ?P) < NULL_IDX (sizeof_T ?P)"
    by (simp add: capacity_example cLockFreePool_fields(1,3) NULL_IDX_def tIndex_max_def index_bits_def)
  have "fst (AcquirePtr ?P) = GetNode ?P 2"
    by (simp only: AcquirePtr_nonempty [OF l c] fst_conv)
  then have a: "AcquirePtr ?P = (4104, snd (AcquirePtr ?P))"
    by (simp add: GetNode_def cLockFreePool_fields ptr_add_def prod_eq_iff)
  have r1: "reachable 4 3 4096 zero_mem (snd (AcquirePtr ?P)) (insert 4104 {})"
    by (rule reachable.acquired [OF reachable.constructed a]) (simp add: nullptr_def)
  have r2: "reachable 4 3 4096 zero_mem (ReleasePtr (snd (AcquirePtr ?P)) 4104) ({4104} - {4104})"
    by (rule reachable.released) (use r1 in simp_all)
  then have r: "reachable 4 3 4096 zero_mem (ReleasePtr (snd (AcquirePtr ?P)) 4104) {}"
    by simp
  have g: "\<And>i. GetNode (ReleasePtr (snd (AcquirePtr ?P)) 4104) i = GetNode ?P i"
    by (simp add: GetNode_def ReleasePtr_fields AcquirePtr_fields)
  have "{i. i < (3::nat)} = {0, 1, 2}" by auto
  then show ?thesis
    using free_list_invariant [OF slab_ok_example r] slab_ok_example r
    by (simp add: ReleasePtr_fields AcquirePtr_fields capacity_example cLockFreePool_fields(1,3)
        NULL_IDX_def tIndex_max_def index_bits_def)
qed

subsection \<open>C4: the capacity bound\<close>

text \<open>
  Claim C4 says that \<open>GetCapacity()\<close> is \<open>min(n, 2^32 - 1)\<close> for \<open>sizeof(T) >= 8\<close> and
  \<open>min(n, 2^16 - 1)\<close> otherwise. \<open>AllocateStorage\<close> clamps to \<open>max(tIndex) - 1\<close>: a request
  for 65535 four-byte elements, or for 4294967295 eight-byte elements, gets one slot less.
\<close>

theorem capacity_clamped_counterexample:
  "unat (GetCapacity (cLockFreePool 4 65535 4096 zero_mem)) \<noteq> min 65535 (2 ^ 16 - 1) \<and>
   unat (GetCapacity (cLockFreePool 8 4294967295 4096 zero_mem)) \<noteq> min 4294967295 (2 ^ 32 - 1)"
  by (simp add: GetCapacity_def cLockFreePool_fields max_capacity_def tIndex_max_def index_bits_def)

text \<open>
  Claim C4, amended. For every requested capacity \<open>n\<close>, \<open>GetCapacity()\<close> is
  \<open>min(n, 2^32 - 2)\<close> when \<open>sizeof(T) >= 8\<close> and \<open>min(n, 2^16 - 2)\<close> otherwise, and
  \<open>NULL_IDX\<close> is the largest value of the index type.
\<close>

theorem capacity_clamped:
  "GetCapacity (cLockFreePool sz n allocated mem) = min n (if 8 \<le> sz then 4294967294 else 65534) \<and>
   NULL_IDX sz = (if 8 \<le> sz then 4294967295 else 65535) \<and>
   NULL_IDX sz = tIndex_max sz"
  by (simp add: GetCapacity_def cLockFreePool_fields max_capacity_def tIndex_max_def index_bits_def
      NULL_IDX_def)

subsection \<open>C6: the tag policy of the pool\<close>

text \<open>
  Claim C6. For a pool whose head tag is a value of the tag type: an acquire on a pool
  that is not empty writes a head whose tag is the old tag plus one (in the arithmetic of
  the tag type, so the largest tag is followed by 0), an acquire on an empty pool writes
  nothing, and a release leaves the tag of the head as it is.
\<close>

theorem pool_tag_policy:
  assumes "mTag (mHead p) < 2 ^ index_bits (sizeof_T p)"
  shows "(if Empty p then snd (AcquireIdx p) = p
          else mTag (mHead (snd (AcquireIdx p))) = (mTag (mHead p) + 1) mod 2 ^ index_bits (sizeof_T p))
         \<and> mTag (mHead (ReleaseIdx p i)) = mTag (mHead p)"
proof -
  have "to_tIndex (sizeof_T p) (int (mTag (mHead p)) + 1)
          = (mTag (mHead p) + 1) mod 2 ^ index_bits (sizeof_T p)"
    by (simp add: to_tIndex_def nat_mod_distrib nat_add_distrib nat_power_eq)
  moreover have "to_tIndex (sizeof_T p) (int (mTag (mHead p))) = mTag (mHead p)"
    using assms by (rule to_tIndex_small)
  ultimately show ?thesis
    by (simp add: AcquireIdx_eq ReleaseIdx_eq Empty_def tIndexTag_def)
qed

text \<open>
  Witness for C6: a pool with 16-bit tags whose head tag is 65535.
\<close>

theorem pool_tag_policy_witness:
  "mTag (mHead tag_example) < 2 ^ index_bits (sizeof_T tag_example) \<and>
   \<not> Empty tag_example \<and>
   mTag (mHead (snd (AcquireIdx tag_example))) = 0 \<and>
   mTag (mHead (ReleaseIdx tag_example 2)) = 65535"
proof -
  have h: "mTag (mHead tag_example) < 2 ^ index_bits (sizeof_T tag_example)"
    by (simp add: tag_example_def index_bits_def)
  have e: "\<not> Empty tag_example"
    by (simp add: tag_example_def Empty_def IsNull_def)
  show ?thesis
    using h e pool_tag_policy [OF h, of 2]
    by (simp add: tag_example_def index_bits_def)
qed

subsection \<open>C8: the free-list after construction\<close>

text \<open>
  Claim C8 says that the free-list of a fresh pool visits slot 0, then 1, up to slot
  \<open>n - 1\<close>, and that the first acquire returns slot 0. \<open>ReleaseAllPtrs\<close> pushes the slots
  in index order on a last-in first-out list: for three slots the walk is not 0, 1, 2 and
  the first acquire does not return slot 0.
\<close>

theorem construction_order_counterexample:
  "free_list (cLockFreePool 4 3 4096 zero_mem) \<noteq> Some ([0, 1, 2], NULL_IDX 4) \<and>
   fst (AcquireIdx (cLockFreePool 4 3 4096 zero_mem)) \<noteq> 0"
  by (simp add: cLockFreePool_free_list [OF slab_ok_example]
      cLockFreePool_first_AcquireIdx [OF slab_ok_example] capacity_example upt_rec)

text \<open>
  Claim C8, amended. Immediately after the construction of a pool with capacity \<open>n\<close>,
  every one of the \<open>n\<close> slots is on the free-list, in descending index order: the walk
  from the head visits slot \<open>n - 1\<close>, then \<open>n - 2\<close>, down to slot 0, and the first
  acquire returns slot \<open>n - 1\<close> (\<open>NULL_IDX\<close> when \<open>n = 0\<close>).
\<close>

theorem construction_order:
  assumes "slab_ok (cLockFreePool sz n allocated mem)"
  shows "free_list (cLockFreePool sz n allocated mem)
           = Some (rev [0 ..< unat (GetCapacity (cLockFreePool sz n allocated mem))], NULL_IDX sz) \<and>
         fst (AcquireIdx (cLockFreePool sz n allocated mem))
           = (if GetCapacity (cLockFreePool sz n allocated mem) = 0 then NULL_IDX sz
              else unat (GetCapacity (cLockFreePool sz n allocated mem)) - 1)"
  unfolding GetCapacity_def
  using cLockFreePool_free_list [OF assms] cLockFreePool_first_AcquireIdx [OF assms] by simp

text \<open>
  Witness for C8: three 4-byte elements at address 4096.
\<close>

theorem construction_order_witness:
  "slab_ok (cLockFreePool 4 3 4096 zero_mem) \<and>
   free_list (cLockFreePool 4 3 4096 zero_mem) = Some ([2, 1, 0], 65535) \<and>
   fst (AcquireIdx (cLockFreePool 4 3 4096 zero_mem)) = 2"
  using construction_order [OF slab_ok_example] slab_ok_example
  by (simp add: GetCapacity_def capacity_example upt_rec NULL_IDX_def tIndex_max_def index_bits_def)

subsection \<open>C9: the pool of capacity 0\<close>

text \<open>
  Claim C9. A pool constructed with capacity 0 is empty and full at once, and
  \<open>AcquirePtr\<close> returns null.
\<close>

theorem zero_capacity_pool:
  "Empty (cLockFreePool sz 0 allocated mem) \<and> Full (cLockFreePool sz 0 allocated mem) \<and>
   fst (AcquirePtr (cLockFreePool sz 0 allocated mem)) = nullptr"
proof -
  have p: "cLockFreePool sz 0 allocated mem =
             \<lparr>sizeof_T = sz, mHead = tIndexTag sz (int (NULL_IDX sz)) 0,
              mCapacity = 0, mStorage = allocated, slab = mem\<rparr>"
    by (simp add: cLockFreePool_eq ReleaseAllPtrs_def ReleaseAllPtrs_loop.simps)
  show ?thesis
    by (simp add: p Empty_def Full_def IsNull_def AcquirePtr_def AcquireIdx_eq)
qed

subsection \<open>C10: releasing a pointer outside the slab\<close>

text \<open>
  Claim C10. When the slot index \<open>ReleasePtr\<close> computes for a pointer (the pointer
  minus the storage base as the program computes it, converted to the index type) is not
  below the capacity, the call returns the pool as it was: the head and every slot keep
  their values. The index is the one \<open>ReleaseIdx\<close> receives, also for a pointer that is not
  a whole number of elements away from the base. (By \<open>ReleasePtr_managed_index\<close>, in a pool
  whose capacity is below \<open>NULL_IDX\<close> such a pointer fails the bounds check that a build with
  \<open>_DEBUG\<close> asserts before it reaches \<open>ReleaseIdx\<close>.)
\<close>

theorem ReleasePtr_out_of_range:
  assumes "IsNull p (to_tIndex (sizeof_T p) (ptr_diff (sizeof_T p) ptr (mStorage p)))"
  shows "ReleasePtr p ptr = p"
  using assms by (simp add: ReleasePtr_def ReleaseIdx_def)

text \<open>
  Witness for C10: in a pool of three 12-byte elements at address 4096, the pointer 4116,
  which lies 20 bytes into the slab and gets the index 1431655767; in a pool of three 4-byte
  elements at the same address, the pointer one past the last slot (index 3) and the
  pointer one byte below the slab (index 65535).
\<close>

theorem ReleasePtr_out_of_range_witness:
  "to_tIndex 12 (ptr_diff 12 4116 4096) = 1431655767 \<and>
   IsNull (cLockFreePool 12 3 4096 zero_mem) 1431655767 \<and>
   ReleasePtr (cLockFreePool 12 3 4096 zero_mem) 4116 = cLockFreePool 12 3 4096 zero_mem \<and>
   to_tIndex 4 (ptr_diff 4 4108 4096) = 3 \<and>
   IsNull (cLockFreePool 4 3 4096 zero_mem) 3 \<and>
   ReleasePtr (cLockFreePool 4 3 4096 zero_mem) 4108 = cLockFreePool 4 3 4096 zero_mem \<and>
   to_tIndex 4 (ptr_diff 4 4095 4096) = 65535 \<and>
   IsNull (cLockFreePool 4 3 4096 zero_mem) 65535 \<and>
   ReleasePtr (cLockFreePool 4 3 4096 zero_mem) 4095 = cLockFreePool 4 3 4096 zero_mem"
proof -
  have c: "mCapacity (cLockFreePool 12 3 4096 zero_mem) = 3"
    by (simp add: cLockFreePool_fields max_capacity_def tIndex_max_def index_bits_def)
  have i1: "to_tIndex 12 (ptr_diff 12 4116 4096) = 1431655767"
    by (simp add: ptr_diff_def trailing_zeros.simps inverse_odd_def newton_step_def
        to_tIndex_def index_bits_def)
  have i2: "to_tIndex 4 (ptr_diff 4 4108 4096) = 3"
    by (simp add: ptr_diff_def trailing_zeros.simps inverse_odd_def newton_step_def
        to_tIndex_def index_bits_def)
  have i3: "to_tIndex 4 (ptr_diff 4 4095 4096) = 65535"
    by (simp add: ptr_diff_def trailing_zeros.simps inverse_odd_def newton_step_def
        to_tIndex_def index_bits_def)
  have n1: "IsNull (cLockFreePool 12 3 4096 zero_mem) 1431655767"
    by (simp add: IsNull_def c)
  have n2: "IsNull (cLockFreePool 4 3 4096 zero_mem) 3"
    by (simp add: IsNull_def capacity_example)
  have n3: "IsNull (cLockFreePool 4 3 4096 zero_mem) 65535"
    by (simp add: IsNull_def capacity_example)
  have r1: "ReleasePtr (cLockFreePool 12 3 4096 zero_mem) 4116 = cLockFreePool 12 3 4096 zero_mem"
    by (rule ReleasePtr_out_of_range) (simp only: cLockFreePool_fields(1,3) i1 n1)
  have r2: "ReleasePtr (cLockFreePool 4 3 4096 zero_mem) 4108 = cLockFreePool 4 3 4096 zero_mem"
    by (rule ReleasePtr_out_of_range) (simp only: cLockFreePool_fields(1,3) i2 n2)
  have r3: "ReleasePtr (cLockFreePool 4 3 4096 zero_mem) 4095 = cLockFreePool 4 3 4096 zero_mem"
    by (rule ReleasePtr_out_of_range) (simp only: cLockFreePool_fields(1,3) i3 n3)
  show ?thesis
    by (intro conjI i1 n1 r1 i2 n2 r2 i3 n3 r3)
qed

section \<open>Lemmas on the tagged pointer, the stack and the queue\<close>

lemma VIRTUAL_ADDRESS_MASK_eq: "VIRTUAL_ADDRESS_MASK = mask 48"
  by (simp add: VIRTUAL_ADDRESS_MASK_def mask_eq_exp_minus_1)

lemma GetTag_PackTaggedPtr: "GetTag (PackTaggedPtr p t) = t"
  unfolding GetTag_def PackTaggedPtr_def
  by (rule bit_word_eqI) (auto simp: bit_simps)

lemma GetPtr_PackTaggedPtr: "GetPtr (PackTaggedPtr p t) = p AND mask 48"
  unfolding GetPtr_def PackTaggedPtr_def VIRTUAL_ADDRESS_MASK_eq
  by (rule bit_word_eqI) (auto simp: bit_simps)

lemma GetPtr_PackTaggedPtr_nullptr: "GetPtr (PackTaggedPtr nullptr t) = nullptr"
  by (simp add: GetPtr_PackTaggedPtr nullptr_def)

lemma GetPtr_PackTaggedPtr_canonical:
  "unat p < 2 ^ 48 \<Longrightarrow> GetPtr (PackTaggedPtr p t) = p"
proof -
  assume "unat p < 2 ^ 48"
  then have "int (unat p) < int (2 ^ 48)"
    by (rule iffD2 [OF of_nat_less_iff])
  then have "uint p < 2 ^ 48"
    by simp
  then have "p AND mask 48 = p" by (simp only: mask_eq_iff)
  then show ?thesis by (simp only: GetPtr_PackTaggedPtr)
qed

lemma Stack_Pop_eq:
  "Stack_Pop s result =
     (if GetPtr (mTop s) = nullptr then (False, result, s)
      else (True, tLockFreeStackNode.mData (slab (cLockFreeStack.mNodePool s) (GetPtr (mTop s))),
            s\<lparr>mTop := PackTaggedPtr
                       (GetPtr (tLockFreeStackNode.mPrev
                                 (slab (cLockFreeStack.mNodePool s) (GetPtr (mTop s)))))
                       (GetTag (mTop s) + 1),
              cLockFreeStack.mNodePool := Release (cLockFreeStack.mNodePool s) (GetPtr (mTop s)),
              cLockFreeStack.mCount := cLockFreeStack.mCount s - 1\<rparr>))"
  by (simp add: Stack_Pop_def compare_exchange_def Let_def)

lemma LinkTopNodeAtomically_eq:
  "LinkTopNodeAtomically s new_node =
     s\<lparr>cLockFreeStack.mNodePool := (cLockFreeStack.mNodePool s)\<lparr>slab :=
          (slab (cLockFreeStack.mNodePool s))(new_node :=
             (slab (cLockFreeStack.mNodePool s) new_node)\<lparr>tLockFreeStackNode.mPrev := mTop s\<rparr>)\<rparr>,
       mTop := PackTaggedPtr new_node (GetTag (mTop s)),
       cLockFreeStack.mCount := cLockFreeStack.mCount s + 1\<rparr>"
  by (simp add: LinkTopNodeAtomically_def compare_exchange_def Let_def)

lemma Queue_Pop_eq:
  "Queue_Pop q result =
     (if GetPtr (tLockFreeQueueNode.mPrev
                   (slab (cLockFreeQueue.mNodePool q) (GetPtr (cLockFreeQueue.mFront q)))) \<noteq> nullptr
      then (True,
            tLockFreeQueueNode.mData (slab (cLockFreeQueue.mNodePool q) (GetPtr (cLockFreeQueue.mFront q))),
            q\<lparr>cLockFreeQueue.mFront := PackTaggedPtr
                   (GetPtr (tLockFreeQueueNode.mPrev
                      (slab (cLockFreeQueue.mNodePool q) (GetPtr (cLockFreeQueue.mFront q)))))
                   (GetTag (cLockFreeQueue.mFront q) + 1),
              cLockFreeQueue.mNodePool :=
                Release (cLockFreeQueue.mNodePool q) (GetPtr (cLockFreeQueue.mFront q)),
              cLockFreeQueue.mCount := cLockFreeQueue.mCount q - 1\<rparr>)
      else (False, result, q))"
  by (simp add: Queue_Pop_def compare_exchange_def Let_def)

lemma slot_canonical:
  assumes "slab_ok p" "i < unat (mCapacity p)"
  shows "unat (GetNode p i) < 2 ^ 48"
proof -
  define m where "m = i * sizeof_T p"
  have le: "m + sizeof_T p \<le> unat (mCapacity p) * sizeof_T p"
  proof -
    have "Suc i * sizeof_T p \<le> unat (mCapacity p) * sizeof_T p"
      using assms(2) by (intro mult_le_mono1) simp
    then show ?thesis by (simp add: m_def)
  qed
  have b: "unat (mStorage p) + unat (mCapacity p) * sizeof_T p \<le> 2 ^ 48" "0 < sizeof_T p"
    using assms(1) by (simp_all add: slab_ok_def)
  have m: "unat (mStorage p) + m < 2 ^ 48" using le b by linarith
  then have "m < 2 ^ 64" by simp
  then have "unat (of_nat m :: 64 word) = m"
    by (simp add: unat_of_nat)
  moreover have "unat (mStorage p) + m < 2 ^ 64" using m by simp
  ultimately have "unat (mStorage p + of_nat m) = unat (mStorage p) + m"
    by (simp add: unat_word_ariths)
  then show ?thesis
    unfolding GetNode_def ptr_add_of_nat m_def [symmetric] using m by simp
qed

lemma card_slots:
  assumes "slab_ok p"
  shows "card (GetNode p ` {i. i < unat (mCapacity p)}) = unat (mCapacity p)"
proof -
  have "inj_on (GetNode p) {i. i < unat (mCapacity p)}"
    using assms by (auto simp: inj_on_def GetNode_inj)
  then show ?thesis by (simp add: card_image)
qed

lemma pool_inv_AcquirePtr_full:
  assumes "pool_inv p held" "card held = unat (mCapacity p)"
  shows "AcquirePtr p = (nullptr, p)"
proof -
  from assms(1) obtain fl where ok: "slab_ok p"
    and cap: "unat (mCapacity p) < NULL_IDX (sizeof_T p)"
    and held: "held \<subseteq> GetNode p ` {i. i < unat (mCapacity p)}"
    and fl: "linked p (mIdx (mHead p)) fl"
      "set fl = {i. i < unat (mCapacity p) \<and> GetNode p i \<notin> held}"
    unfolding pool_inv_def by blast
  have "held = GetNode p ` {i. i < unat (mCapacity p)}"
    using held assms(2) card_slots [OF ok] by (intro card_subset_eq) simp_all
  then have "set fl = {}" using fl(2) by auto
  then have "fl = []" by simp
  then show ?thesis using fl(1) cap by (simp add: AcquirePtr_empty)
qed

lemma pool_inv_AcquirePtr_free:
  assumes "pool_inv p held" "card held < unat (mCapacity p)"
  obtains a h where "AcquirePtr p = (a, p\<lparr>mHead := h\<rparr>)" "a \<noteq> nullptr" "a \<notin> held"
    "unat a < 2 ^ 48" "pool_inv (p\<lparr>mHead := h\<rparr>) (insert a held)"
proof -
  from assms(1) obtain fl where ok: "slab_ok p"
    and cap: "unat (mCapacity p) < NULL_IDX (sizeof_T p)"
    and held: "held \<subseteq> GetNode p ` {i. i < unat (mCapacity p)}"
    and fl: "linked p (mIdx (mHead p)) fl"
      "set fl = {i. i < unat (mCapacity p) \<and> GetNode p i \<notin> held}"
    unfolding pool_inv_def by blast
  have "held \<noteq> GetNode p ` {i. i < unat (mCapacity p)}"
    using assms(2) card_slots [OF ok] by auto
  then have "set fl \<noteq> {}" using held fl(2) by auto
  then obtain i fl' where c: "fl = i # fl'" by (cases fl) auto
  let ?h = "tIndexTag (sizeof_T p) (int (mIdx (mNext (slab p (GetNode p i)))))
                          (int (mTag (mHead p)) + 1)"
  have a: "AcquirePtr p = (GetNode p i, p\<lparr>mHead := ?h\<rparr>)"
    using fl(1) cap unfolding c by (rule AcquirePtr_nonempty)
  have i: "i < unat (mCapacity p)" "GetNode p i \<notin> held"
    using fl(2) unfolding c by auto
  have "pool_inv (p\<lparr>mHead := ?h\<rparr>)
          (if GetNode p i = nullptr then held else insert (GetNode p i) held)"
    using assms(1) a by (rule pool_inv_acquire)
  moreover have n: "GetNode p i \<noteq> nullptr" using ok i(1) by (rule GetNode_nonnull)
  ultimately have "pool_inv (p\<lparr>mHead := ?h\<rparr>) (insert (GetNode p i) held)" by simp
  then show thesis
    using a n i(2) slot_canonical [OF ok i(1)] by (intro that)
qed

lemma pool_inv_held:
  assumes "pool_inv p held" "a \<in> held"
  shows "a \<noteq> nullptr" "unat a < 2 ^ 48"
proof -
  from assms obtain i where "slab_ok p" "i < unat (mCapacity p)" "a = GetNode p i"
    unfolding pool_inv_def by auto
  then show "a \<noteq> nullptr" "unat a < 2 ^ 48"
    using GetNode_nonnull [of p i] slot_canonical [of p i] by simp_all
qed

lemma pool_inv_finite:
  assumes "pool_inv p held"
  shows "finite held" "card held \<le> unat (mCapacity p)"
proof -
  from assms have ok: "slab_ok p" and h: "held \<subseteq> GetNode p ` {i. i < unat (mCapacity p)}"
    unfolding pool_inv_def by auto
  show "finite held" using h by (rule finite_subset) simp
  show "card held \<le> unat (mCapacity p)"
    using card_mono [OF _ h] card_slots [OF ok] by simp
qed

lemma ReleasePtr_held:
  assumes "pool_inv p held" "a \<in> held"
  shows "ReleasePtr p a =
           p\<lparr>slab := (slab p)(a := (slab p a)\<lparr>mNext := (mNext (slab p a))\<lparr>mIdx := mIdx (mHead p)\<rparr>\<rparr>),
             mHead := mHead (ReleasePtr p a)\<rparr>"
proof -
  from assms obtain i where ok: "slab_ok p" and cap: "unat (mCapacity p) < NULL_IDX (sizeof_T p)"
    and i: "i < unat (mCapacity p)" "a = GetNode p i"
    unfolding pool_inv_def by auto
  have "ReleasePtr p a = ReleaseIdx p i"
    unfolding i(2) using ok i(1) by (rule ReleasePtr_GetNode) (use cap in \<open>simp add: NULL_IDX_def\<close>)
  then show ?thesis using i by (simp add: ReleaseIdx_eq IsNull_def)
qed

lemma stack_chain_cong:
  assumes "\<And>n. n \<in> set ns \<Longrightarrow>
             tLockFreeStackNode.mPrev (slab p' n) = tLockFreeStackNode.mPrev (slab p n)"
  shows "stack_chain p' a ns = stack_chain p a ns"
  using assms by (induction ns arbitrary: a) simp_all

lemma GetPtr_GetPtr: "GetPtr (PackTaggedPtr (GetPtr y) t) = GetPtr y"
  by (simp add: GetPtr_PackTaggedPtr) (simp add: GetPtr_def VIRTUAL_ADDRESS_MASK_eq)

lemma stack_rep_length: "stack_rep s ns xs \<Longrightarrow> length ns = length xs"
  unfolding stack_rep_def by (metis length_map)

lemma stack_rep_card: "stack_rep s ns xs \<Longrightarrow> card (set ns) = length xs"
  using stack_rep_length [of s ns xs] by (simp add: stack_rep_def distinct_card)

lemma Stack_Push_full:
  assumes "stack_rep s ns xs" "length xs = unat (mCapacity (cLockFreeStack.mNodePool s))"
  shows "Stack_Push s x = (False, s)"
proof -
  have "card (set ns) = unat (mCapacity (cLockFreeStack.mNodePool s))"
    using stack_rep_card [OF assms(1)] assms(2) by simp
  moreover have "pool_inv (cLockFreeStack.mNodePool s) (set ns)"
    using assms(1) by (simp add: stack_rep_def)
  ultimately have "AcquirePtr (cLockFreeStack.mNodePool s) = (nullptr, cLockFreeStack.mNodePool s)"
    by (intro pool_inv_AcquirePtr_full)
  then show ?thesis by (simp add: Stack_Push_def Acquire_def)
qed

lemma Stack_Push_free:
  assumes "stack_rep s ns xs" "length xs < unat (mCapacity (cLockFreeStack.mNodePool s))"
  obtains a s' where "Stack_Push s x = (True, s')" "stack_rep s' (a # ns) (x # xs)"
    "mCapacity (cLockFreeStack.mNodePool s') = mCapacity (cLockFreeStack.mNodePool s)"
proof -
  let ?P = "cLockFreeStack.mNodePool s"
  have inv: "pool_inv ?P (set ns)" and d: "distinct ns"
    and ch: "stack_chain ?P (GetPtr (mTop s)) ns"
    and xs: "map (\<lambda>n. tLockFreeStackNode.mData (slab ?P n)) ns = xs"
    using assms(1) by (simp_all add: stack_rep_def)
  have "card (set ns) < unat (mCapacity ?P)"
    using stack_rep_card [OF assms(1)] assms(2) by simp
  with inv obtain a h where a: "AcquirePtr ?P = (a, ?P\<lparr>mHead := h\<rparr>)" "a \<noteq> nullptr"
    "a \<notin> set ns" "unat a < 2 ^ 48" "pool_inv (?P\<lparr>mHead := h\<rparr>) (insert a (set ns))"
    by (rule pool_inv_AcquirePtr_free)
  let ?v = "(slab ?P a)\<lparr>tLockFreeStackNode.mData := x, tLockFreeStackNode.mPrev := mTop s\<rparr>"
  let ?P2 = "?P\<lparr>mHead := h, slab := (slab ?P)(a := ?v)\<rparr>"
  let ?s' = "s\<lparr>cLockFreeStack.mNodePool := ?P2, mTop := PackTaggedPtr a (GetTag (mTop s)),
                cLockFreeStack.mCount := cLockFreeStack.mCount s + 1\<rparr>"
  have push: "Stack_Push s x = (True, ?s')"
    using a(1,2) by (simp add: Stack_Push_def Acquire_def LinkTopNodeAtomically_eq)
  have "pool_inv ((?P\<lparr>mHead := h\<rparr>)\<lparr>slab := (slab (?P\<lparr>mHead := h\<rparr>))(a := ?v)\<rparr>) (insert a (set ns))"
    using a(5) by (rule pool_inv_written) simp
  then have 1: "pool_inv ?P2 (set (a # ns))" by simp
  have 2: "distinct (a # ns)" using d a(3) by simp
  have "stack_chain ?P2 (GetPtr (mTop s)) ns = stack_chain ?P (GetPtr (mTop s)) ns"
    by (rule stack_chain_cong) (use a(3) in auto)
  then have 3: "stack_chain ?P2 (GetPtr (PackTaggedPtr a (GetTag (mTop s)))) (a # ns)"
    using ch a(4) by (simp add: GetPtr_PackTaggedPtr_canonical)
  have 4: "map (\<lambda>n. tLockFreeStackNode.mData (slab ?P2 n)) (a # ns) = x # xs"
    using xs a(3) by auto
  have "stack_rep ?s' (a # ns) (x # xs)"
    unfolding stack_rep_def using 1 2 3 4 by simp
  then show thesis using push by (intro that [of ?s' a]) simp_all
qed

lemma Stack_Pop_empty:
  assumes "stack_rep s [] xs"
  shows "Stack_Pop s r = (False, r, s)"
  using assms by (simp add: stack_rep_def Stack_Pop_eq)

lemma Stack_Pop_nonempty:
  assumes "stack_rep s (n # ns) xs"
  obtains s' where "Stack_Pop s r = (True, hd xs, s')" "stack_rep s' ns (tl xs)"
    "mCapacity (cLockFreeStack.mNodePool s') = mCapacity (cLockFreeStack.mNodePool s)"
proof -
  let ?P = "cLockFreeStack.mNodePool s"
  have inv: "pool_inv ?P (set (n # ns))" and d: "distinct (n # ns)"
    and top: "GetPtr (mTop s) = n"
    and ch: "stack_chain ?P (GetPtr (tLockFreeStackNode.mPrev (slab ?P n))) ns"
    and xs: "map (\<lambda>n. tLockFreeStackNode.mData (slab ?P n)) (n # ns) = xs"
    using assms(1) by (simp_all add: stack_rep_def)
  have nn: "n \<noteq> nullptr" using inv by (rule pool_inv_held) simp
  let ?P' = "ReleasePtr ?P n"
  let ?s' = "s\<lparr>mTop := PackTaggedPtr (GetPtr (tLockFreeStackNode.mPrev (slab ?P n))) (GetTag (mTop s) + 1),
                cLockFreeStack.mNodePool := ?P',
                cLockFreeStack.mCount := cLockFreeStack.mCount s - 1\<rparr>"
  have pop: "Stack_Pop s r = (True, hd xs, ?s')"
    using top nn xs by (auto simp: Stack_Pop_eq Release_def)
  have r: "?P' = ?P\<lparr>slab := (slab ?P)(n := (slab ?P n)\<lparr>mNext := (mNext (slab ?P n))\<lparr>mIdx := mIdx (mHead ?P)\<rparr>\<rparr>),
             mHead := mHead ?P'\<rparr>"
    using inv by (rule ReleasePtr_held) simp
  have other: "\<And>m. m \<in> set ns \<Longrightarrow> slab ?P' m = slab ?P m"
    using d by (subst r) auto
  have "pool_inv ?P' (set (n # ns) - {n})"
    using inv by (rule pool_inv_release) simp
  then have 1: "pool_inv ?P' (set ns)" using d by simp
  have 2: "distinct ns" using d by simp
  have "stack_chain ?P' (GetPtr (tLockFreeStackNode.mPrev (slab ?P n))) ns"
    using ch other by (simp add: stack_chain_cong [of ns ?P' ?P])
  then have 3: "stack_chain ?P' (GetPtr (mTop ?s')) ns"
    by (simp add: GetPtr_GetPtr)
  have 4: "map (\<lambda>n. tLockFreeStackNode.mData (slab ?P' n)) ns = tl xs"
    using xs other by auto
  have "stack_rep ?s' ns (tl xs)"
    unfolding stack_rep_def using 1 2 3 4 by simp
  moreover have "mCapacity ?P' = mCapacity ?P" by (simp add: ReleasePtr_fields)
  ultimately show thesis using pop by (intro that [of ?s']) simp_all
qed

lemma stack_rep_init:
  assumes "slab_ok (cLockFreePool sz n b mem)"
  shows "stack_rep (cLockFreeStack (cLockFreePool sz n b mem)) [] []"
  using pool_inv_constructed [OF assms]
  by (simp add: stack_rep_def cLockFreeStack_def GetPtr_PackTaggedPtr_nullptr)

lemma stack_holds_length:
  assumes "stack_holds s xs"
  shows "length xs \<le> unat (mCapacity (cLockFreeStack.mNodePool s))"
proof -
  from assms obtain ns where r: "stack_rep s ns xs" by (auto simp: stack_holds_def)
  then have "pool_inv (cLockFreeStack.mNodePool s) (set ns)" by (simp add: stack_rep_def)
  then have "card (set ns) \<le> unat (mCapacity (cLockFreeStack.mNodePool s))"
    by (rule pool_inv_finite)
  then show ?thesis using stack_rep_card [OF r] by simp
qed

lemma Stack_Push_holds:
  assumes "stack_holds s xs"
  shows "fst (Stack_Push s x) = (length xs < unat (mCapacity (cLockFreeStack.mNodePool s)))"
    "stack_holds (snd (Stack_Push s x))
       (if length xs < unat (mCapacity (cLockFreeStack.mNodePool s)) then x # xs else xs)"
    "mCapacity (cLockFreeStack.mNodePool (snd (Stack_Push s x)))
       = mCapacity (cLockFreeStack.mNodePool s)"
proof -
  from assms obtain ns where r: "stack_rep s ns xs" by (auto simp: stack_holds_def)
  let ?c = "unat (mCapacity (cLockFreeStack.mNodePool s))"
  have "fst (Stack_Push s x) = (length xs < ?c) \<and>
        stack_holds (snd (Stack_Push s x)) (if length xs < ?c then x # xs else xs) \<and>
        mCapacity (cLockFreeStack.mNodePool (snd (Stack_Push s x)))
          = mCapacity (cLockFreeStack.mNodePool s)"
  proof (cases "length xs < ?c")
    case True
    with r obtain a s' where "Stack_Push s x = (True, s')" "stack_rep s' (a # ns) (x # xs)"
      "mCapacity (cLockFreeStack.mNodePool s') = mCapacity (cLockFreeStack.mNodePool s)"
      by (rule Stack_Push_free)
    then show ?thesis using True by (auto simp: stack_holds_def)
  next
    case False
    then have "length xs = ?c" using stack_holds_length [OF assms] by simp
    with r have "Stack_Push s x = (False, s)" by (rule Stack_Push_full)
    then show ?thesis using False assms by simp
  qed
  then show "fst (Stack_Push s x) = (length xs < ?c)"
    "stack_holds (snd (Stack_Push s x)) (if length xs < ?c then x # xs else xs)"
    "mCapacity (cLockFreeStack.mNodePool (snd (Stack_Push s x)))
       = mCapacity (cLockFreeStack.mNodePool s)"
    by simp_all
qed

lemma Stack_Pop_holds:
  assumes "stack_holds s xs"
  shows "fst (Stack_Pop s r) = (xs \<noteq> [])"
    "fst (snd (Stack_Pop s r)) = (if xs = [] then r else hd xs)"
    "stack_holds (snd (snd (Stack_Pop s r))) (tl xs)"
    "mCapacity (cLockFreeStack.mNodePool (snd (snd (Stack_Pop s r))))
       = mCapacity (cLockFreeStack.mNodePool s)"
proof -
  from assms obtain ns where r: "stack_rep s ns xs" by (auto simp: stack_holds_def)
  have "fst (Stack_Pop s r) = (xs \<noteq> []) \<and>
        fst (snd (Stack_Pop s r)) = (if xs = [] then r else hd xs) \<and>
        stack_holds (snd (snd (Stack_Pop s r))) (tl xs) \<and>
        mCapacity (cLockFreeStack.mNodePool (snd (snd (Stack_Pop s r))))
          = mCapacity (cLockFreeStack.mNodePool s)"
  proof (cases ns)
    case Nil
    then have "xs = []" using stack_rep_length [OF r] by simp
    moreover have "Stack_Pop s r = (False, r, s)"
      using r unfolding Nil by (rule Stack_Pop_empty)
    ultimately show ?thesis using assms by simp
  next
    case (Cons n ns')
    then have "xs \<noteq> []" using stack_rep_length [OF r] by auto
    moreover obtain s' where "Stack_Pop s r = (True, hd xs, s')" "stack_rep s' ns' (tl xs)"
      "mCapacity (cLockFreeStack.mNodePool s') = mCapacity (cLockFreeStack.mNodePool s)"
      using r unfolding Cons by (rule Stack_Pop_nonempty)
    ultimately show ?thesis by (auto simp: stack_holds_def)
  qed
  then show "fst (Stack_Pop s r) = (xs \<noteq> [])"
    "fst (snd (Stack_Pop s r)) = (if xs = [] then r else hd xs)"
    "stack_holds (snd (snd (Stack_Pop s r))) (tl xs)"
    "mCapacity (cLockFreeStack.mNodePool (snd (snd (Stack_Pop s r))))
       = mCapacity (cLockFreeStack.mNodePool s)"
    by simp_all
qed

lemma stack_holds_init:
  assumes "slab_ok (cLockFreePool sz n b mem)"
  shows "stack_holds (cLockFreeStack (cLockFreePool sz n b mem)) []"
  using stack_rep_init [OF assms] by (auto simp: stack_holds_def)

lemma capacity_3: "mCapacity (cLockFreePool sz 3 b mem) = 3"
  using tIndex_max_cases [of sz]
  by (auto simp: cLockFreePool_fields max_capacity_def)

lemma queue_chain_cong:
  assumes "\<And>n. n \<in> set ns \<Longrightarrow>
             tLockFreeQueueNode.mPrev (slab p' n) = tLockFreeQueueNode.mPrev (slab p n)"
  shows "queue_chain p' a ns = queue_chain p a ns"
  using assms by (induction ns arbitrary: a) simp_all

lemma queue_chain_snoc:
  assumes "ns \<noteq> []" "queue_chain p a0 ns"
    "\<And>n. n \<in> set (butlast ns) \<Longrightarrow>
       tLockFreeQueueNode.mPrev (slab p' n) = tLockFreeQueueNode.mPrev (slab p n)"
    "GetPtr (tLockFreeQueueNode.mPrev (slab p' (last ns))) = a"
    "GetPtr (tLockFreeQueueNode.mPrev (slab p' a)) = nullptr"
  shows "queue_chain p' a0 (ns @ [a])"
  using assms
proof (induction ns arbitrary: a0)
  case Nil
  then show ?case by simp
next
  case (Cons n ns)
  show ?case
  proof (cases ns)
    case Nil
    then show ?thesis using Cons.prems by simp
  next
    case (Cons m ms)
    have "queue_chain p' (GetPtr (tLockFreeQueueNode.mPrev (slab p n))) (ns @ [a])"
    proof (rule Cons.IH)
      show "ns \<noteq> []" using Cons by simp
      show "queue_chain p (GetPtr (tLockFreeQueueNode.mPrev (slab p n))) ns"
        using Cons.prems(2) by simp
      show "\<And>k. k \<in> set (butlast ns) \<Longrightarrow>
              tLockFreeQueueNode.mPrev (slab p' k) = tLockFreeQueueNode.mPrev (slab p k)"
        using Cons.prems(3) Cons by simp
      show "GetPtr (tLockFreeQueueNode.mPrev (slab p' (last ns))) = a"
        using Cons.prems(4) Cons by simp
      show "GetPtr (tLockFreeQueueNode.mPrev (slab p' a)) = nullptr"
        using Cons.prems(5) .
    qed
    moreover have "tLockFreeQueueNode.mPrev (slab p' n) = tLockFreeQueueNode.mPrev (slab p n)"
      using Cons.prems(3) [of n] Cons by simp
    ultimately show ?thesis using Cons.prems(2) by simp
  qed
qed

lemma queue_rep_card: "queue_rep q ns xs \<Longrightarrow> card (set ns) = Suc (length xs)"
proof -
  assume r: "queue_rep q ns xs"
  then have "length (butlast ns) = length xs" unfolding queue_rep_def by (metis length_map)
  then have "length ns - 1 = length xs" by simp
  moreover have "0 < length ns" "distinct ns" using r by (simp_all add: queue_rep_def)
  ultimately have "length ns = Suc (length xs)" by linarith
  then show ?thesis using \<open>distinct ns\<close> by (simp add: distinct_card)
qed

lemma butlast_not_last:
  assumes "distinct ns" "n \<in> set (butlast ns)"
  shows "n \<noteq> last ns"
proof -
  have "ns \<noteq> []" using assms(2) by auto
  then have "ns = butlast ns @ [last ns]" by simp
  then have "distinct (butlast ns @ [last ns])" using assms(1) by simp
  then show ?thesis using assms(2) by auto
qed

lemma GetPtr_0: "GetPtr 0 = nullptr"
  by (simp add: GetPtr_def nullptr_def)

lemma Queue_Push_full:
  assumes "queue_rep q ns xs" "Suc (length xs) = unat (mCapacity (cLockFreeQueue.mNodePool q))"
  shows "Queue_Push q x = (False, q)"
proof -
  have "card (set ns) = unat (mCapacity (cLockFreeQueue.mNodePool q))"
    using queue_rep_card [OF assms(1)] assms(2) by simp
  moreover have "pool_inv (cLockFreeQueue.mNodePool q) (set ns)"
    using assms(1) by (simp add: queue_rep_def)
  ultimately have "AcquirePtr (cLockFreeQueue.mNodePool q) = (nullptr, cLockFreeQueue.mNodePool q)"
    by (intro pool_inv_AcquirePtr_full)
  then show ?thesis
    by (simp add: Queue_Push_def Queue_LinkBackNodeAtomically_def Queue_AcquireNewNode_def)
qed

lemma map_snoc_last: "ns \<noteq> [] \<Longrightarrow> map f ns = map f (butlast ns) @ [f (last ns)]"
  by (induction ns) auto

lemma push_step:
  fixes q :: "'a cLockFreeQueue"
  assumes a: "AcquirePtr (cLockFreeQueue.mNodePool q) = (a, (cLockFreeQueue.mNodePool q)\<lparr>mHead := h\<rparr>)" "a \<noteq> nullptr"
   and bk: "GetPtr (cLockFreeQueue.mBack q) = l" and l: "l \<noteq> a"
  shows "Queue_Push q x = (True,
     q\<lparr>cLockFreeQueue.mNodePool := (cLockFreeQueue.mNodePool q)\<lparr>mHead := h,
            slab := (slab (cLockFreeQueue.mNodePool q))
               (a := (slab (cLockFreeQueue.mNodePool q) a)\<lparr>tLockFreeQueueNode.mPrev := 0\<rparr>,
                l := (slab (cLockFreeQueue.mNodePool q) l)\<lparr>tLockFreeQueueNode.mData := x,
                tLockFreeQueueNode.mPrev := PackTaggedPtr a 0\<rparr>)\<rparr>,
        cLockFreeQueue.mBack := PackTaggedPtr a 0,
        cLockFreeQueue.mCount := cLockFreeQueue.mCount q + 1\<rparr>)"
  using a bk l
  by (simp add: Queue_Push_def Queue_LinkBackNodeAtomically_def Queue_AcquireNewNode_def
        Let_def)

lemma Queue_Push_free:
  assumes "queue_rep q ns xs" "Suc (length xs) < unat (mCapacity (cLockFreeQueue.mNodePool q))"
  obtains a q' where "Queue_Push q x = (True, q')" "queue_rep q' (ns @ [a]) (xs @ [x])"
    "mCapacity (cLockFreeQueue.mNodePool q') = mCapacity (cLockFreeQueue.mNodePool q)"
proof -
  let ?P = "cLockFreeQueue.mNodePool q"
  have inv: "pool_inv ?P (set ns)" and d: "distinct ns" and ne: "ns \<noteq> []"
    and ch: "queue_chain ?P (GetPtr (cLockFreeQueue.mFront q)) ns"
    and bk: "GetPtr (cLockFreeQueue.mBack q) = last ns"
    and xs: "map (\<lambda>n. tLockFreeQueueNode.mData (slab ?P n)) (butlast ns) = xs"
    using assms(1) by (simp_all add: queue_rep_def)
  have "card (set ns) < unat (mCapacity ?P)"
    using queue_rep_card [OF assms(1)] assms(2) by simp
  with inv obtain a h where a: "AcquirePtr ?P = (a, ?P\<lparr>mHead := h\<rparr>)" "a \<noteq> nullptr"
    "a \<notin> set ns" "unat a < 2 ^ 48" "pool_inv (?P\<lparr>mHead := h\<rparr>) (insert a (set ns))"
    by (rule pool_inv_AcquirePtr_free)
  let ?l = "last ns"
  have l: "?l \<in> set ns" "?l \<noteq> a" using ne a(3) by auto
  let ?va = "(slab ?P a)\<lparr>tLockFreeQueueNode.mPrev := 0\<rparr>"
  let ?vl = "(slab ?P ?l)\<lparr>tLockFreeQueueNode.mData := x,
                tLockFreeQueueNode.mPrev := PackTaggedPtr a 0\<rparr>"
  let ?P1 = "(?P\<lparr>mHead := h\<rparr>)\<lparr>slab := (slab (?P\<lparr>mHead := h\<rparr>))(a := ?va)\<rparr>"
  let ?P2 = "?P1\<lparr>slab := (slab ?P1)(?l := ?vl)\<rparr>"
  let ?q' = "q\<lparr>cLockFreeQueue.mNodePool := ?P2, cLockFreeQueue.mBack := PackTaggedPtr a 0,
                cLockFreeQueue.mCount := cLockFreeQueue.mCount q + 1\<rparr>"
  have push: "Queue_Push q x = (True, ?q')"
    using push_step [OF a(1,2) bk l(2), of x] by simp
  have "pool_inv ?P1 (insert a (set ns))"
    using a(5) by (rule pool_inv_written) simp
  then have "pool_inv ?P2 (insert a (set ns))"
    by (rule pool_inv_written) (use l in simp)
  then have 1: "pool_inv ?P2 (set (ns @ [a]))" by simp
  have 2: "distinct (ns @ [a])" using d a(3) by simp
  have 3: "queue_chain ?P2 (GetPtr (cLockFreeQueue.mFront q)) (ns @ [a])"
    using ne ch
  proof (rule queue_chain_snoc)
    fix n assume "n \<in> set (butlast ns)"
    then have "n \<noteq> ?l" "n \<noteq> a"
      using butlast_not_last [OF d, of n] a(3) by (auto dest: in_set_butlastD)
    then show "tLockFreeQueueNode.mPrev (slab ?P2 n) = tLockFreeQueueNode.mPrev (slab ?P n)"
      by simp
  next
    show "GetPtr (tLockFreeQueueNode.mPrev (slab ?P2 ?l)) = a"
      using a(4) by (simp add: GetPtr_PackTaggedPtr_canonical)
    show "GetPtr (tLockFreeQueueNode.mPrev (slab ?P2 a)) = nullptr"
      using l(2) by (simp add: GetPtr_0)
  qed
  have 4: "GetPtr (PackTaggedPtr a 0) = last (ns @ [a])"
    using a(4) by (simp add: GetPtr_PackTaggedPtr_canonical)
  have 5: "map (\<lambda>n. tLockFreeQueueNode.mData (slab ?P2 n)) (butlast (ns @ [a])) = xs @ [x]"
  proof -
    have "map (\<lambda>n. tLockFreeQueueNode.mData (slab ?P2 n)) (butlast ns)
            = map (\<lambda>n. tLockFreeQueueNode.mData (slab ?P n)) (butlast ns)"
    proof (rule map_cong [OF refl])
      fix n assume "n \<in> set (butlast ns)"
      then have "n \<noteq> ?l" "n \<noteq> a"
        using butlast_not_last [OF d, of n] a(3) by (auto dest: in_set_butlastD)
      then show "tLockFreeQueueNode.mData (slab ?P2 n) = tLockFreeQueueNode.mData (slab ?P n)"
        by simp
    qed
    moreover have "map (\<lambda>n. tLockFreeQueueNode.mData (slab ?P2 n)) ns
                 = map (\<lambda>n. tLockFreeQueueNode.mData (slab ?P2 n)) (butlast ns)
                   @ [tLockFreeQueueNode.mData (slab ?P2 ?l)]"
      using ne by (rule map_snoc_last)
    ultimately show ?thesis using xs by simp
  qed
  have "queue_rep ?q' (ns @ [a]) (xs @ [x])"
    unfolding queue_rep_def using 1 2 3 4 5 by simp
  then show thesis using push by (intro that [of ?q' a]) simp_all
qed

lemma Queue_Pop_empty:
  assumes "queue_rep q [n] xs"
  shows "Queue_Pop q r = (False, r, q)"
  using assms by (simp add: queue_rep_def Queue_Pop_eq)

lemma Queue_Pop_nonempty:
  assumes "queue_rep q (n # m # ns) xs"
  obtains q' where "Queue_Pop q r = (True, hd xs, q')" "queue_rep q' (m # ns) (tl xs)"
    "mCapacity (cLockFreeQueue.mNodePool q') = mCapacity (cLockFreeQueue.mNodePool q)"
proof -
  let ?P = "cLockFreeQueue.mNodePool q"
  have inv: "pool_inv ?P (set (n # m # ns))" and d: "distinct (n # m # ns)"
    and front: "GetPtr (cLockFreeQueue.mFront q) = n"
    and nx: "GetPtr (tLockFreeQueueNode.mPrev (slab ?P n)) = m"
    and ch: "queue_chain ?P (GetPtr (tLockFreeQueueNode.mPrev (slab ?P m))) ns"
    and bk: "GetPtr (cLockFreeQueue.mBack q) = last (m # ns)"
    and xs: "tLockFreeQueueNode.mData (slab ?P n)
               # map (\<lambda>n. tLockFreeQueueNode.mData (slab ?P n)) (butlast (m # ns)) = xs"
    using assms(1) by (simp_all add: queue_rep_def)
  have mn: "m \<noteq> nullptr" using inv by (rule pool_inv_held) simp
  have mc: "unat m < 2 ^ 48" using inv by (rule pool_inv_held) simp
  let ?P' = "ReleasePtr ?P n"
  let ?q' = "q\<lparr>cLockFreeQueue.mFront := PackTaggedPtr (GetPtr (tLockFreeQueueNode.mPrev (slab ?P n)))
                                          (GetTag (cLockFreeQueue.mFront q) + 1),
                cLockFreeQueue.mNodePool := ?P',
                cLockFreeQueue.mCount := cLockFreeQueue.mCount q - 1\<rparr>"
  have pop: "Queue_Pop q r = (True, hd xs, ?q')"
    using front nx mn xs by (auto simp: Queue_Pop_eq Release_def)
  have r: "?P' = ?P\<lparr>slab := (slab ?P)(n := (slab ?P n)\<lparr>mNext := (mNext (slab ?P n))\<lparr>mIdx := mIdx (mHead ?P)\<rparr>\<rparr>),
             mHead := mHead ?P'\<rparr>"
    using inv by (rule ReleasePtr_held) simp
  have other: "\<And>k. k \<in> set (m # ns) \<Longrightarrow> slab ?P' k = slab ?P k"
    using d by (subst r) auto
  have "pool_inv ?P' (set (n # m # ns) - {n})"
    using inv by (rule pool_inv_release) simp
  then have 1: "pool_inv ?P' (set (m # ns))" using d by simp
  have 2: "distinct (m # ns)" using d by simp
  have c': "queue_chain ?P' (GetPtr (tLockFreeQueueNode.mPrev (slab ?P m))) ns"
    using ch other by (simp add: queue_chain_cong [of ns ?P' ?P])
  have f: "GetPtr (cLockFreeQueue.mFront ?q') = m"
    using nx mc by (simp add: GetPtr_PackTaggedPtr_canonical)
  have 3: "queue_chain ?P' (GetPtr (cLockFreeQueue.mFront ?q')) (m # ns)"
    unfolding f using c' by (simp add: other)
  have 4: "map (\<lambda>n. tLockFreeQueueNode.mData (slab ?P' n)) (butlast (m # ns)) = tl xs"
  proof -
    have "map (\<lambda>n. tLockFreeQueueNode.mData (slab ?P' n)) (butlast (m # ns))
            = map (\<lambda>n. tLockFreeQueueNode.mData (slab ?P n)) (butlast (m # ns))"
    proof (rule map_cong [OF refl])
      fix k assume "k \<in> set (butlast (m # ns))"
      then have "k \<in> set (m # ns)" by (rule in_set_butlastD)
      then show "tLockFreeQueueNode.mData (slab ?P' k) = tLockFreeQueueNode.mData (slab ?P k)"
        by (simp only: other)
    qed
    then show ?thesis using xs by auto
  qed
  have "queue_rep ?q' (m # ns) (tl xs)"
    unfolding queue_rep_def using 1 2 3 4 bk by simp
  moreover have "mCapacity ?P' = mCapacity ?P" by (simp add: ReleasePtr_fields)
  ultimately show thesis using pop by (intro that [of ?q']) simp_all
qed

lemma queue_rep_init:
  assumes "slab_ok (cLockFreePool sz n b mem)" "0 < unat (mCapacity (cLockFreePool sz n b mem))"
  obtains a where "queue_rep (cLockFreeQueue (cLockFreePool sz n b mem)) [a] []"
    "mCapacity (cLockFreeQueue.mNodePool (cLockFreeQueue (cLockFreePool sz n b mem)))
       = mCapacity (cLockFreePool sz n b mem)"
proof -
  let ?P = "cLockFreePool sz n b mem"
  have "pool_inv ?P {}" using assms(1) by (rule pool_inv_constructed)
  moreover have "card ({} :: ptr set) < unat (mCapacity ?P)" using assms(2) by simp
  ultimately obtain a h where a: "AcquirePtr ?P = (a, ?P\<lparr>mHead := h\<rparr>)" "a \<noteq> nullptr"
    "unat a < 2 ^ 48" "pool_inv (?P\<lparr>mHead := h\<rparr>) (insert a {})"
    by (rule pool_inv_AcquirePtr_free)
  let ?P1 = "(?P\<lparr>mHead := h\<rparr>)\<lparr>slab := (slab (?P\<lparr>mHead := h\<rparr>))(a :=
               (slab ?P a)\<lparr>tLockFreeQueueNode.mPrev := 0\<rparr>)\<rparr>"
  let ?q = "\<lparr>cLockFreeQueue.mNodePool = ?P1, mFront = PackTaggedPtr a 0,
             mBack = PackTaggedPtr a 0, cLockFreeQueue.mCount = 0\<rparr>"
  have q: "cLockFreeQueue ?P = ?q"
    using a(1,2) by (simp add: cLockFreeQueue_def Queue_AcquireNewNode_def)
  have 1: "pool_inv ?P1 {a}"
    using a(4) by (rule pool_inv_written) simp
  have "queue_rep ?q [a] []"
    unfolding queue_rep_def using 1 a(3) by (simp add: GetPtr_PackTaggedPtr_canonical GetPtr_0)
  then show thesis unfolding q [symmetric] by (rule that) (simp add: q)
qed

lemma queue_holds_length:
  assumes "queue_holds q xs"
  shows "Suc (length xs) \<le> unat (mCapacity (cLockFreeQueue.mNodePool q))"
proof -
  from assms obtain ns where r: "queue_rep q ns xs" by (auto simp: queue_holds_def)
  then have "pool_inv (cLockFreeQueue.mNodePool q) (set ns)" by (simp add: queue_rep_def)
  then have "card (set ns) \<le> unat (mCapacity (cLockFreeQueue.mNodePool q))"
    by (rule pool_inv_finite)
  then show ?thesis using queue_rep_card [OF r] by simp
qed

lemma Queue_Push_holds:
  assumes "queue_holds q xs"
  shows "fst (Queue_Push q x) = (Suc (length xs) < unat (mCapacity (cLockFreeQueue.mNodePool q)))"
    "queue_holds (snd (Queue_Push q x))
       (if Suc (length xs) < unat (mCapacity (cLockFreeQueue.mNodePool q)) then xs @ [x] else xs)"
    "mCapacity (cLockFreeQueue.mNodePool (snd (Queue_Push q x)))
       = mCapacity (cLockFreeQueue.mNodePool q)"
proof -
  from assms obtain ns where r: "queue_rep q ns xs" by (auto simp: queue_holds_def)
  let ?c = "unat (mCapacity (cLockFreeQueue.mNodePool q))"
  have "fst (Queue_Push q x) = (Suc (length xs) < ?c) \<and>
        queue_holds (snd (Queue_Push q x)) (if Suc (length xs) < ?c then xs @ [x] else xs) \<and>
        mCapacity (cLockFreeQueue.mNodePool (snd (Queue_Push q x)))
          = mCapacity (cLockFreeQueue.mNodePool q)"
  proof (cases "Suc (length xs) < ?c")
    case True
    with r obtain a q' where "Queue_Push q x = (True, q')" "queue_rep q' (ns @ [a]) (xs @ [x])"
      "mCapacity (cLockFreeQueue.mNodePool q') = mCapacity (cLockFreeQueue.mNodePool q)"
      by (rule Queue_Push_free)
    then show ?thesis using True by (auto simp: queue_holds_def)
  next
    case False
    then have "Suc (length xs) = ?c" using queue_holds_length [OF assms] by simp
    with r have "Queue_Push q x = (False, q)" by (rule Queue_Push_full)
    then show ?thesis using False assms by simp
  qed
  then show "fst (Queue_Push q x) = (Suc (length xs) < ?c)"
    "queue_holds (snd (Queue_Push q x)) (if Suc (length xs) < ?c then xs @ [x] else xs)"
    "mCapacity (cLockFreeQueue.mNodePool (snd (Queue_Push q x)))
       = mCapacity (cLockFreeQueue.mNodePool q)"
    by simp_all
qed

lemma Queue_Pop_holds:
  assumes "queue_holds q xs"
  shows "fst (Queue_Pop q r) = (xs \<noteq> [])"
    "fst (snd (Queue_Pop q r)) = (if xs = [] then r else hd xs)"
    "queue_holds (snd (snd (Queue_Pop q r))) (tl xs)"
    "mCapacity (cLockFreeQueue.mNodePool (snd (snd (Queue_Pop q r))))
       = mCapacity (cLockFreeQueue.mNodePool q)"
proof -
  from assms obtain ns where r: "queue_rep q ns xs" by (auto simp: queue_holds_def)
  have len: "length ns = Suc (length xs)"
    using queue_rep_card [OF r] r by (simp add: queue_rep_def distinct_card)
  have "fst (Queue_Pop q r) = (xs \<noteq> []) \<and>
        fst (snd (Queue_Pop q r)) = (if xs = [] then r else hd xs) \<and>
        queue_holds (snd (snd (Queue_Pop q r))) (tl xs) \<and>
        mCapacity (cLockFreeQueue.mNodePool (snd (snd (Queue_Pop q r))))
          = mCapacity (cLockFreeQueue.mNodePool q)"
  proof (cases xs)
    case Nil
    then obtain n where n: "ns = [n]" using len by (cases ns) auto
    have "Queue_Pop q r = (False, r, q)"
      using r unfolding n by (rule Queue_Pop_empty)
    then show ?thesis using assms Nil by simp
  next
    case (Cons y ys)
    then obtain n m ns' where n: "ns = n # m # ns'"
      using len by (cases ns; cases "tl ns") auto
    obtain q' where "Queue_Pop q r = (True, hd xs, q')" "queue_rep q' (m # ns') (tl xs)"
      "mCapacity (cLockFreeQueue.mNodePool q') = mCapacity (cLockFreeQueue.mNodePool q)"
      using r unfolding n by (rule Queue_Pop_nonempty)
    then show ?thesis using Cons by (auto simp: queue_holds_def)
  qed
  then show "fst (Queue_Pop q r) = (xs \<noteq> [])"
    "fst (snd (Queue_Pop q r)) = (if xs = [] then r else hd xs)"
    "queue_holds (snd (snd (Queue_Pop q r))) (tl xs)"
    "mCapacity (cLockFreeQueue.mNodePool (snd (snd (Queue_Pop q r))))
       = mCapacity (cLockFreeQueue.mNodePool q)"
    by simp_all
qed

lemma queue_holds_init:
  assumes "slab_ok (cLockFreePool sz n b mem)" "0 < unat (mCapacity (cLockFreePool sz n b mem))"
  shows "queue_holds (cLockFreeQueue (cLockFreePool sz n b mem)) []"
    "mCapacity (cLockFreeQueue.mNodePool (cLockFreeQueue (cLockFreePool sz n b mem)))
       = mCapacity (cLockFreePool sz n b mem)"
  using queue_rep_init [OF assms] by (auto simp: queue_holds_def)

lemma capacity_4: "mCapacity (cLockFreePool sz 4 b mem) = 4"
  using tIndex_max_cases [of sz]
  by (auto simp: cLockFreePool_fields max_capacity_def)

lemma slab_ok_16_3: "slab_ok (cLockFreePool 16 3 65536 mem)"
  by (simp add: slab_ok_def cLockFreePool_fields(1,3) capacity_3 nullptr_def)

lemma slab_ok_16_4: "slab_ok (cLockFreePool 16 4 65536 mem)"
  by (simp add: slab_ok_def cLockFreePool_fields(1,3) capacity_4 nullptr_def)

lemma Stack_Empty_holds:
  assumes "stack_holds s xs"
  shows "Stack_Empty s = (xs = [])"
proof -
  from assms obtain ns where r: "stack_rep s ns xs" by (auto simp: stack_holds_def)
  show ?thesis
  proof (cases ns)
    case Nil
    then show ?thesis using r by (auto simp: stack_rep_def Stack_Empty_def)
  next
    case (Cons n ns')
    then have "pool_inv (cLockFreeStack.mNodePool s) (set ns)" "n \<in> set ns" "GetPtr (mTop s) = n"
      using r by (simp_all add: stack_rep_def)
    then have "GetPtr (mTop s) \<noteq> nullptr" using pool_inv_held(1) by blast
    moreover have "xs \<noteq> []" using stack_rep_length [OF r] Cons by auto
    ultimately show ?thesis by (simp add: Stack_Empty_def)
  qed
qed

lemma Queue_Empty_holds:
  assumes "queue_holds q xs"
  shows "Queue_Empty q = (xs = [])"
proof -
  from assms obtain ns where r: "queue_rep q ns xs" by (auto simp: queue_holds_def)
  have len: "length ns = Suc (length xs)"
    using queue_rep_card [OF r] r by (simp add: queue_rep_def distinct_card)
  show ?thesis
  proof (cases xs)
    case Nil
    then obtain n where n: "ns = [n]" using len by (cases ns) auto
    then show ?thesis using r Nil by (simp add: queue_rep_def Queue_Empty_def)
  next
    case (Cons y ys)
    then obtain n m ns' where n: "ns = n # m # ns'"
      using len by (cases ns; cases "tl ns") auto
    then have "pool_inv (cLockFreeQueue.mNodePool q) (set ns)" "m \<in> set ns"
      "GetPtr (cLockFreeQueue.mFront q) = n"
      "GetPtr (tLockFreeQueueNode.mPrev (slab (cLockFreeQueue.mNodePool q) n)) = m"
      using r by (simp_all add: queue_rep_def)
    then show ?thesis using pool_inv_held(1) [of "cLockFreeQueue.mNodePool q" "set ns" m] Cons
      by (simp add: Queue_Empty_def)
  qed
qed

lemma MPSC_Empty_constructed:
  assumes "slab_ok (cLockFreePool sz n b mem)" "0 < unat (mCapacity (cLockFreePool sz n b mem))"
  shows "MPSC_Empty (cMPSCLockFreeQueue (cLockFreePool sz n b mem) t0)"
proof -
  let ?P = "cLockFreePool sz n b mem"
  have "pool_inv ?P {}" using assms(1) by (rule pool_inv_constructed)
  moreover have "card ({} :: ptr set) < unat (mCapacity ?P)" using assms(2) by simp
  ultimately obtain a h where a: "AcquirePtr ?P = (a, ?P\<lparr>mHead := h\<rparr>)" "a \<noteq> nullptr"
    by (rule pool_inv_AcquirePtr_free)
  then show ?thesis
    by (simp add: cMPSCLockFreeQueue_def MPSC_AcquireNewNode_def Acquire_def MPSC_Empty_def)
qed

section \<open>Claims on the stack and the queues\<close>

subsection \<open>C1: the stack scenario\<close>

text \<open>
  Claim C1. A stack on a fresh pool of capacity 3, wherever the slab lies and whatever it
  held before: the pushes of 42, 666 and 1337 return true, a fourth push returns false,
  the next three pops return true and yield 1337, 666 and 42, and a fourth pop returns
  false (and leaves the out-parameter as it was).
\<close>

theorem stack_scenario:
  assumes "slab_ok (cLockFreePool sz 3 allocated mem)"
  shows "let s0 = cLockFreeStack (cLockFreePool sz 3 allocated mem);
             (r1, s1) = Stack_Push s0 (42::int);
             (r2, s2) = Stack_Push s1 666;
             (r3, s3) = Stack_Push s2 1337;
             (r4, s4) = Stack_Push s3 x;
             (r5, y5, s5) = Stack_Pop s4 y;
             (r6, y6, s6) = Stack_Pop s5 y5;
             (r7, y7, s7) = Stack_Pop s6 y6;
             (r8, y8, s8) = Stack_Pop s7 y7
         in r1 \<and> r2 \<and> r3 \<and> \<not> r4 \<and>
            r5 \<and> y5 = 1337 \<and> r6 \<and> y6 = 666 \<and> r7 \<and> y7 = 42 \<and> \<not> r8 \<and> y8 = y7"
proof -
  define s0 where "s0 = cLockFreeStack (cLockFreePool sz 3 allocated mem)"
  define s1 where "s1 = snd (Stack_Push s0 (42::int))"
  define s2 where "s2 = snd (Stack_Push s1 666)"
  define s3 where "s3 = snd (Stack_Push s2 1337)"
  define s4 where "s4 = snd (Stack_Push s3 x)"
  define s5 where "s5 = snd (snd (Stack_Pop s4 y))"
  define s6 where "s6 = snd (snd (Stack_Pop s5 1337))"
  define s7 where "s7 = snd (snd (Stack_Pop s6 666))"
  have h0: "stack_holds s0 []"
    unfolding s0_def using assms by (rule stack_holds_init)
  have c0: "unat (mCapacity (cLockFreeStack.mNodePool s0)) = 3"
    by (simp add: s0_def cLockFreeStack_def capacity_3)
  have h1: "fst (Stack_Push s0 42)" "stack_holds s1 [42]"
    and c1: "unat (mCapacity (cLockFreeStack.mNodePool s1)) = 3"
    using Stack_Push_holds [OF h0, of 42] c0 by (simp_all add: s1_def)
  have h2: "fst (Stack_Push s1 666)" "stack_holds s2 [666, 42]"
    and c2: "unat (mCapacity (cLockFreeStack.mNodePool s2)) = 3"
    using Stack_Push_holds [OF h1(2), of 666] c1 by (simp_all add: s2_def)
  have h3: "fst (Stack_Push s2 1337)" "stack_holds s3 [1337, 666, 42]"
    and c3: "unat (mCapacity (cLockFreeStack.mNodePool s3)) = 3"
    using Stack_Push_holds [OF h2(2), of 1337] c2 by (simp_all add: s3_def)
  have h4: "\<not> fst (Stack_Push s3 x)" "stack_holds s4 [1337, 666, 42]"
    using Stack_Push_holds [OF h3(2), of x] c3 by (simp_all add: s4_def)
  have h5: "fst (Stack_Pop s4 y)" "fst (snd (Stack_Pop s4 y)) = 1337" "stack_holds s5 [666, 42]"
    using Stack_Pop_holds [OF h4(2), of y] by (simp_all add: s5_def)
  have h6: "fst (Stack_Pop s5 1337)" "fst (snd (Stack_Pop s5 1337)) = 666" "stack_holds s6 [42]"
    using Stack_Pop_holds [OF h5(3), of 1337] by (simp_all add: s6_def)
  have h7: "fst (Stack_Pop s6 666)" "fst (snd (Stack_Pop s6 666)) = 42" "stack_holds s7 []"
    using Stack_Pop_holds [OF h6(3), of 666] by (simp_all add: s7_def)
  have h8: "\<not> fst (Stack_Pop s7 42)" "fst (snd (Stack_Pop s7 42)) = 42"
    using Stack_Pop_holds [OF h7(3), of 42] by simp_all
  show ?thesis
    unfolding Let_def split_beta s0_def [symmetric] s1_def [symmetric] s2_def [symmetric]
      s3_def [symmetric] s4_def [symmetric] h5(2) s5_def [symmetric] h6(2) s6_def [symmetric]
      h7(2) s7_def [symmetric]
    using h1(1) h2(1) h3(1) h4(1) h5(1,2) h6(1,2) h7(1,2) h8 by simp
qed

text \<open>
  Witness for C1: nodes of 16 bytes in a slab at address 65536; the fourth push offers
  1138 and the out-parameter starts as 0.
\<close>

theorem stack_scenario_witness:
  "slab_ok (cLockFreePool 16 3 65536 zero_stack_mem) \<and>
   (let s0 = cLockFreeStack (cLockFreePool 16 3 65536 zero_stack_mem);
        (r1, s1) = Stack_Push s0 (42::int);
        (r2, s2) = Stack_Push s1 666;
        (r3, s3) = Stack_Push s2 1337;
        (r4, s4) = Stack_Push s3 1138;
        (r5, y5, s5) = Stack_Pop s4 0;
        (r6, y6, s6) = Stack_Pop s5 y5;
        (r7, y7, s7) = Stack_Pop s6 y6;
        (r8, y8, s8) = Stack_Pop s7 y7
    in r1 \<and> r2 \<and> r3 \<and> \<not> r4 \<and>
       r5 \<and> y5 = 1337 \<and> r6 \<and> y6 = 666 \<and> r7 \<and> y7 = 42 \<and> \<not> r8 \<and> y8 = y7)"
  by (rule conjI [OF slab_ok_16_3 stack_scenario [OF slab_ok_16_3]])

subsection \<open>C2: the queue scenario\<close>

text \<open>
  Claim C2. An MPMC queue on a fresh pool of capacity 4 (three elements and the
  sentinel), wherever the slab lies and whatever it held before: the pushes of 42, 666 and
  1337 return true, a fourth push returns false, the next three pops return true and
  yield 42, 666 and 1337, and a fourth pop returns false (and leaves the out-parameter as
  it was).
\<close>

theorem queue_scenario:
  assumes "slab_ok (cLockFreePool sz 4 allocated mem)"
  shows "let q0 = cLockFreeQueue (cLockFreePool sz 4 allocated mem);
             (r1, q1) = Queue_Push q0 (42::int);
             (r2, q2) = Queue_Push q1 666;
             (r3, q3) = Queue_Push q2 1337;
             (r4, q4) = Queue_Push q3 x;
             (r5, y5, q5) = Queue_Pop q4 y;
             (r6, y6, q6) = Queue_Pop q5 y5;
             (r7, y7, q7) = Queue_Pop q6 y6;
             (r8, y8, q8) = Queue_Pop q7 y7
         in r1 \<and> r2 \<and> r3 \<and> \<not> r4 \<and>
            r5 \<and> y5 = 42 \<and> r6 \<and> y6 = 666 \<and> r7 \<and> y7 = 1337 \<and> \<not> r8 \<and> y8 = y7"
proof -
  define q0 where "q0 = cLockFreeQueue (cLockFreePool sz 4 allocated mem)"
  define q1 where "q1 = snd (Queue_Push q0 (42::int))"
  define q2 where "q2 = snd (Queue_Push q1 666)"
  define q3 where "q3 = snd (Queue_Push q2 1337)"
  define q4 where "q4 = snd (Queue_Push q3 x)"
  define q5 where "q5 = snd (snd (Queue_Pop q4 y))"
  define q6 where "q6 = snd (snd (Queue_Pop q5 42))"
  define q7 where "q7 = snd (snd (Queue_Pop q6 666))"
  have c: "unat (mCapacity (cLockFreePool sz 4 allocated mem)) = 4"
    by (simp add: capacity_4)
  have h0: "queue_holds q0 []" and c0: "unat (mCapacity (cLockFreeQueue.mNodePool q0)) = 4"
    unfolding q0_def using queue_holds_init [OF assms] c by simp_all
  have h1: "fst (Queue_Push q0 42)" "queue_holds q1 [42]"
    and c1: "unat (mCapacity (cLockFreeQueue.mNodePool q1)) = 4"
    using Queue_Push_holds [OF h0, of 42] c0 by (simp_all add: q1_def)
  have h2: "fst (Queue_Push q1 666)" "queue_holds q2 [42, 666]"
    and c2: "unat (mCapacity (cLockFreeQueue.mNodePool q2)) = 4"
    using Queue_Push_holds [OF h1(2), of 666] c1 by (simp_all add: q2_def)
  have h3: "fst (Queue_Push q2 1337)" "queue_holds q3 [42, 666, 1337]"
    and c3: "unat (mCapacity (cLockFreeQueue.mNodePool q3)) = 4"
    using Queue_Push_holds [OF h2(2), of 1337] c2 by (simp_all add: q3_def)
  have h4: "\<not> fst (Queue_Push q3 x)" "queue_holds q4 [42, 666, 1337]"
    using Queue_Push_holds [OF h3(2), of x] c3 by (simp_all add: q4_def)
  have h5: "fst (Queue_Pop q4 y)" "fst (snd (Queue_Pop q4 y)) = 42" "queue_holds q5 [666, 1337]"
    using Queue_Pop_holds [OF h4(2), of y] by (simp_all add: q5_def)
  have h6: "fst (Queue_Pop q5 42)" "fst (snd (Queue_Pop q5 42)) = 666" "queue_holds q6 [1337]"
    using Queue_Pop_holds [OF h5(3), of 42] by (simp_all add: q6_def)
  have h7: "fst (Queue_Pop q6 666)" "fst (snd (Queue_Pop q6 666)) = 1337" "queue_holds q7 []"
    using Queue_Pop_holds [OF h6(3), of 666] by (simp_all add: q7_def)
  have h8: "\<not> fst (Queue_Pop q7 1337)" "fst (snd (Queue_Pop q7 1337)) = 1337"
    using Queue_Pop_holds [OF h7(3), of 1337] by simp_all
  show ?thesis
    unfolding Let_def split_beta q0_def [symmetric] q1_def [symmetric] q2_def [symmetric]
      q3_def [symmetric] q4_def [symmetric] h5(2) q5_def [symmetric] h6(2) q6_def [symmetric]
      h7(2) q7_def [symmetric]
    using h1(1) h2(1) h3(1) h4(1) h5(1,2) h6(1,2) h7(1,2) h8 by simp
qed

text \<open>
  Witness for C2: nodes of 16 bytes in a slab at address 65536; the fourth push offers
  1138 and the out-parameter starts as 0.
\<close>

theorem queue_scenario_witness:
  "slab_ok (cLockFreePool 16 4 65536 zero_queue_mem) \<and>
   (let q0 = cLockFreeQueue (cLockFreePool 16 4 65536 zero_queue_mem);
        (r1, q1) = Queue_Push q0 (42::int);
        (r2, q2) = Queue_Push q1 666;
        (r3, q3) = Queue_Push q2 1337;
        (r4, q4) = Queue_Push q3 1138;
        (r5, y5, q5) = Queue_Pop q4 0;
        (r6, y6, q6) = Queue_Pop q5 y5;
        (r7, y7, q7) = Queue_Pop q6 y6;
        (r8, y8, q8) = Queue_Pop q7 y7
    in r1 \<and> r2 \<and> r3 \<and> \<not> r4 \<and>
       r5 \<and> y5 = 42 \<and> r6 \<and> y6 = 666 \<and> r7 \<and> y7 = 1337 \<and> \<not> r8 \<and> y8 = y7)"
  by (rule conjI [OF slab_ok_16_4 queue_scenario [OF slab_ok_16_4]])

subsection \<open>C5: Pop on an empty container\<close>

text \<open>
  Claim C5. On a stack, an MPMC queue or an MPSC queue for which \<open>Empty()\<close> holds,
  \<open>Pop\<close> returns false, the out-parameter keeps the value it had at the call, and the
  container is unchanged.
\<close>

theorem Pop_on_empty:
  "(Stack_Empty s \<longrightarrow> Stack_Pop s r = (False, r, s)) \<and>
   (Queue_Empty q \<longrightarrow> Queue_Pop q r = (False, r, q)) \<and>
   (MPSC_Empty m \<longrightarrow> MPSC_Pop m r = (False, r, m))"
  by (simp add: Stack_Empty_def Stack_Pop_eq Queue_Empty_def Queue_Pop_eq MPSC_Empty_def
      MPSC_Pop_def)

text \<open>
  Witness for C5: the three containers right after their construction, with 7 in the
  out-parameter.
\<close>

theorem Pop_on_empty_witness:
  "Stack_Empty stack_example \<and> Stack_Pop stack_example 7 = (False, 7, stack_example) \<and>
   Queue_Empty queue_example \<and> Queue_Pop queue_example 7 = (False, 7, queue_example) \<and>
   MPSC_Empty mpsc_example \<and> MPSC_Pop mpsc_example 7 = (False, 7, mpsc_example)"
proof -
  have s: "Stack_Empty stack_example"
    unfolding stack_example_def
    using Stack_Empty_holds [OF stack_holds_init [OF slab_ok_16_3]] by simp
  have q: "Queue_Empty queue_example"
    unfolding queue_example_def
    using Queue_Empty_holds [OF queue_holds_init(1) [OF slab_ok_16_4]]
    by (simp add: capacity_4)
  have m: "MPSC_Empty mpsc_example"
    unfolding mpsc_example_def
    by (rule MPSC_Empty_constructed [OF slab_ok_16_4]) (simp add: capacity_4)
  show ?thesis
    using s q m Pop_on_empty [of stack_example 7 queue_example mpsc_example] by simp
qed

subsection \<open>C7: the tag policy of the stack\<close>

text \<open>
  Claim C7. In every state of the stack: when the stack is not empty, \<open>Pop\<close> succeeds and
  writes a top whose tag is the tag of the top it replaced plus one (in 16-bit arithmetic);
  when \<open>Push\<close> succeeds, the top it writes carries the tag of the top it replaced.
\<close>

theorem stack_tag_policy:
  "(\<not> Stack_Empty s \<longrightarrow>
      fst (Stack_Pop s r) \<and> GetTag (mTop (snd (snd (Stack_Pop s r)))) = GetTag (mTop s) + 1) \<and>
   (fst (Stack_Push s x) \<longrightarrow> GetTag (mTop (snd (Stack_Push s x))) = GetTag (mTop s))"
  by (simp add: Stack_Empty_def Stack_Pop_eq Stack_Push_def LinkTopNodeAtomically_eq
      GetTag_PackTaggedPtr Let_def split: prod.splits)

text \<open>
  Witness for C7: a push of 42 on the fresh stack, then a pop.
\<close>

theorem stack_tag_policy_witness:
  "fst (Stack_Push stack_example 42) \<and>
   GetTag (mTop (snd (Stack_Push stack_example 42))) = GetTag (mTop stack_example) \<and>
   \<not> Stack_Empty (snd (Stack_Push stack_example 42)) \<and>
   fst (Stack_Pop (snd (Stack_Push stack_example 42)) 0) \<and>
   GetTag (mTop (snd (snd (Stack_Pop (snd (Stack_Push stack_example 42)) 0))))
     = GetTag (mTop (snd (Stack_Push stack_example 42))) + 1"
proof -
  have h0: "stack_holds stack_example []"
    unfolding stack_example_def by (rule stack_holds_init [OF slab_ok_16_3])
  have c0: "unat (mCapacity (cLockFreeStack.mNodePool stack_example)) = 3"
    by (simp add: stack_example_def cLockFreeStack_def capacity_3)
  have p: "fst (Stack_Push stack_example 42)"
    and h1: "stack_holds (snd (Stack_Push stack_example 42)) [42]"
    using Stack_Push_holds [OF h0, of 42] c0 by simp_all
  have e: "\<not> Stack_Empty (snd (Stack_Push stack_example 42))"
    using Stack_Empty_holds [OF h1] by simp
  show ?thesis
    using p e stack_tag_policy [of "snd (Stack_Push stack_example 42)" 0 42]
      stack_tag_policy [of stack_example 0 42]
    by simp
qed

end
